theory Spec2Isabelle
  imports Main "HOL-Library.Sublist"
begin

section \<open>Correction normalizer (in-page script)\<close>

text \<open>
  Offsets are JavaScript numbers that hold integers; they are modelled as \<open>int\<close>.
  A field that the source tests with \<open>typeof x === 'number'\<close> (or \<open>'string'\<close>) is an
  option: \<open>Some v\<close> when the test succeeds, \<open>None\<close> when the field is absent or has
  another type. Strings are character lists; \<open>slice\<close> is \<open>take\<close>/\<open>drop\<close>.
\<close>

record ProofreadRange =
  r_start :: int
  r_end :: int
  r_replacement :: "string option"

record RangeObj =
  rg_start :: "int option"
  rg_end :: "int option"

record Suggestion =
  sg_replacement :: "string option"
  sg_text :: "string option"

text \<open>One raw correction record of the engine, with every field the normalizer probes.
  \<open>c_suggestions\<close> is \<open>Some\<close> exactly when \<open>Array.isArray(c.suggestions)\<close>.\<close>

record Corr =
  c_start :: "int option"
  c_end :: "int option"
  c_range :: "RangeObj option"
  c_offset :: "int option"
  c_length :: "int option"
  c_startIndex :: "int option"
  c_endIndex :: "int option"
  c_rangeStart :: "int option"
  c_rangeEnd :: "int option"
  c_replacement :: "string option"
  c_replacementText :: "string option"
  c_suggestions :: "Suggestion list option"
  c_suggestion :: "string option"
  c_correction :: "string option"

text \<open>The record \<open>{}\<close>: no field is present.\<close>

definition emptyCorr :: Corr where
  "emptyCorr =
     \<lparr>c_start = None, c_end = None, c_range = None, c_offset = None, c_length = None,
      c_startIndex = None, c_endIndex = None, c_rangeStart = None, c_rangeEnd = None,
      c_replacement = None, c_replacementText = None, c_suggestions = None,
      c_suggestion = None, c_correction = None\<rparr>"

text \<open>An entry of the corrections array: \<open>Nullish\<close> is \<open>null\<close> or \<open>undefined\<close>, on
  which the property read \<open>c.start\<close> throws a TypeError.\<close>

datatype RawCorrection = Nullish | Obj Corr

text \<open>The engine result: \<open>a_corrections\<close> is \<open>Some\<close> exactly when
  \<open>Array.isArray(apiResult.corrections)\<close>; the two string fields are \<open>None\<close> when absent.\<close>

record ApiResult =
  a_corrections :: "RawCorrection list option"
  a_corrected :: "string option"
  a_text :: "string option"

record ProofreadPayload =
  p_corrected :: string
  p_corrections :: "RawCorrection list"
  p_ranges :: "ProofreadRange list"
  p_cancelled :: bool

definition corrStart :: "Corr \<Rightarrow> int option" where
  "corrStart c =
     (case c_start c of Some n \<Rightarrow> Some n | None \<Rightarrow>
      (case c_offset c of Some n \<Rightarrow> Some n | None \<Rightarrow>
       (case c_startIndex c of Some n \<Rightarrow> Some n | None \<Rightarrow>
        (case (case c_range c of Some r \<Rightarrow> rg_start r | None \<Rightarrow> None) of
           Some n \<Rightarrow> Some n
         | None \<Rightarrow> c_rangeStart c))))"

definition corrEnd :: "Corr \<Rightarrow> int option \<Rightarrow> int option" where
  "corrEnd c st =
     (case c_end c of Some n \<Rightarrow> Some n | None \<Rightarrow>
      (case c_endIndex c of Some n \<Rightarrow> Some n | None \<Rightarrow>
       (case (case (c_length c, st) of (Some l, Some s) \<Rightarrow> Some (s + l) | _ \<Rightarrow> None) of
          Some n \<Rightarrow> Some n
        | None \<Rightarrow>
          (case (case c_range c of Some r \<Rightarrow> rg_end r | None \<Rightarrow> None) of
             Some n \<Rightarrow> Some n
           | None \<Rightarrow> c_rangeEnd c))))"

definition firstSuggestion :: "Corr \<Rightarrow> Suggestion option" where
  "firstSuggestion c =
     (case c_suggestions c of Some (s # _) \<Rightarrow> Some s | _ \<Rightarrow> None)"

definition corrRepl :: "Corr \<Rightarrow> string option" where
  "corrRepl c =
     (case c_correction c of Some t \<Rightarrow> Some t | None \<Rightarrow>
      (case c_replacement c of Some t \<Rightarrow> Some t | None \<Rightarrow>
       (case c_replacementText c of Some t \<Rightarrow> Some t | None \<Rightarrow>
        (case c_suggestion c of Some t \<Rightarrow> Some t | None \<Rightarrow>
         (case (case firstSuggestion c of Some s \<Rightarrow> sg_replacement s | None \<Rightarrow> None) of
            Some t \<Rightarrow> Some t
          | None \<Rightarrow> (case firstSuggestion c of Some s \<Rightarrow> sg_text s | None \<Rightarrow> None))))))"

text \<open>The callback of \<open>.map\<close>: a range when both offsets resolve, \<open>null\<close> otherwise.\<close>

definition toRange :: "Corr \<Rightarrow> ProofreadRange option" where
  "toRange c =
     (case (corrStart c, corrEnd c (corrStart c)) of
        (Some s, Some e) \<Rightarrow> Some \<lparr>r_start = s, r_end = e, r_replacement = corrRepl c\<rparr>
      | _ \<Rightarrow> None)"

text \<open>\<open>.map(...)\<close> over the array; \<open>None\<close> is the TypeError of a nullish entry.\<close>

fun mapCorrections :: "RawCorrection list \<Rightarrow> ProofreadRange option list option" where
  "mapCorrections [] = Some []"
| "mapCorrections (Nullish # cs) = None"
| "mapCorrections (Obj c # cs) =
     (case mapCorrections cs of None \<Rightarrow> None | Some rs \<Rightarrow> Some (toRange c # rs))"

text \<open>The \<open>try\<close> block with \<open>.filter(Boolean)\<close>; the \<open>catch\<close> resets the ranges.\<close>

definition normalizeRanges :: "RawCorrection list \<Rightarrow> ProofreadRange list" where
  "normalizeRanges cs =
     (case mapCorrections cs of
        None \<Rightarrow> []
      | Some rs \<Rightarrow> List.map_filter (\<lambda>r. r) rs)"

text \<open>One pass of the synthesis loop on the working copy \<open>out\<close>.\<close>

definition spliceRange :: "string \<Rightarrow> ProofreadRange \<Rightarrow> string" where
  "spliceRange out corr =
     (let s = max 0 (min (int (length out)) (r_start corr));
          e = max s (min (int (length out)) (r_end corr))
      in take (nat s) out
         @ (case r_replacement corr of
              Some t \<Rightarrow> t
            | None \<Rightarrow> take (nat e - nat s) (drop (nat s) out))
         @ drop (nat e) out)"

text \<open>\<open>[...ranges].sort((a, b) => b.start - a.start)\<close>: a stable sort, descending by
  start.\<close>

definition sortDescending :: "ProofreadRange list \<Rightarrow> ProofreadRange list" where
  "sortDescending ranges = sort_key (\<lambda>r. - r_start r) ranges"

definition synthesize :: "string \<Rightarrow> ProofreadRange list \<Rightarrow> string" where
  "synthesize base ranges = foldl spliceRange base (sortDescending ranges)"

text \<open>\<open>String(apiResult?.corrected || apiResult?.text || '')\<close>: the empty string is
  falsy.\<close>

definition engineCorrected :: "ApiResult option \<Rightarrow> string" where
  "engineCorrected api =
     (case api of
        None \<Rightarrow> []
      | Some a \<Rightarrow>
        (case a_corrected a of
           Some t \<Rightarrow> (if t \<noteq> [] then t else (case a_text a of Some u \<Rightarrow> u | None \<Rightarrow> []))
         | None \<Rightarrow> (case a_text a of Some u \<Rightarrow> u | None \<Rightarrow> [])))"

definition rawCorrections :: "ApiResult option \<Rightarrow> RawCorrection list" where
  "rawCorrections api =
     (case api of
        None \<Rightarrow> []
      | Some a \<Rightarrow> (case a_corrections a of Some cs \<Rightarrow> cs | None \<Rightarrow> []))"

definition buildProofreadPayload :: "string \<Rightarrow> ApiResult option \<Rightarrow> ProofreadPayload" where
  "buildProofreadPayload base api =
     (let corrections = rawCorrections api;
          corrected0 = engineCorrected api;
          ranges = normalizeRanges corrections;
          corrected1 = (if corrected0 = [] \<and> ranges \<noteq> []
                        then synthesize base ranges else corrected0);
          corrected2 = (if corrected1 = [] then base else corrected1)
      in \<lparr>p_corrected = corrected2, p_corrections = corrections, p_ranges = ranges,
          p_cancelled = False\<rparr>)"

subsection \<open>Left-to-right application of edits (reference semantics of the specification)\<close>

text \<open>
  The specification compares the synthesis with "applying all edits left-to-right against
  base's original offsets". This second definition follows those words, not the source:
  the edits are taken in ascending order of start, every offset is an offset into the
  unchanged \<open>base\<close> (clamped to it), the text between two edits is copied from \<open>base\<close>,
  and each edit contributes its replacement (or the original substring when it has none).
\<close>

fun spec_applyFrom :: "string \<Rightarrow> nat \<Rightarrow> ProofreadRange list \<Rightarrow> string" where
  "spec_applyFrom base idx [] = drop idx base"
| "spec_applyFrom base idx (r # rs) =
     (let s = max 0 (min (int (length base)) (r_start r));
          e = max s (min (int (length base)) (r_end r))
      in take (nat s - idx) (drop idx base)
         @ (case r_replacement r of
              Some t \<Rightarrow> t
            | None \<Rightarrow> take (nat e - nat s) (drop (nat s) base))
         @ spec_applyFrom base (nat e) rs)"

definition spec_applyLeftToRight :: "string \<Rightarrow> ProofreadRange list \<Rightarrow> string" where
  "spec_applyLeftToRight base ranges = spec_applyFrom base 0 (sort_key r_start ranges)"

text \<open>Edits for which the two readings can be compared: every range lies inside \<open>base\<close>,
  the starts are pairwise different, and a range that starts before another one ends
  before that one starts.\<close>

definition disjointRanges :: "string \<Rightarrow> ProofreadRange list \<Rightarrow> bool" where
  "disjointRanges base ranges \<longleftrightarrow>
     list_all (\<lambda>r. 0 \<le> r_start r \<and> r_start r \<le> r_end r \<and> r_end r \<le> int (length base)) ranges
     \<and> distinct (map r_start ranges)
     \<and> list_all (\<lambda>a. list_all (\<lambda>b. r_start b \<le> r_start a \<or> r_end a \<le> r_start b) ranges) ranges"

section \<open>Annotation renderer (content script)\<close>

record Segment =
  seg_start :: int
  seg_end :: int
  seg_underline :: bool

text \<open>\<open>text.slice(a, b)\<close> for offsets that are not negative.\<close>

definition jsSlice :: "string \<Rightarrow> int \<Rightarrow> int \<Rightarrow> string" where
  "jsSlice t a b = take (nat b - nat a) (drop (nat a) t)"

definition sortAscending :: "ProofreadRange list \<Rightarrow> ProofreadRange list" where
  "sortAscending ranges = sort_key r_start ranges"

text \<open>The clamp of one range in \<open>render\<close>, against a text of length \<open>n\<close>.\<close>

definition clampRange :: "int \<Rightarrow> ProofreadRange \<Rightarrow> int \<times> int" where
  "clampRange n r =
     (let s = max 0 (min n (r_start r));
          e = max s (min n (r_end r))
      in (s, e))"

text \<open>The loop of \<open>render\<close> over the sorted ranges, with the running index \<open>idx\<close>, and the
  push after the loop.\<close>

fun renderSegments :: "int \<Rightarrow> int \<Rightarrow> ProofreadRange list \<Rightarrow> Segment list" where
  "renderSegments n idx [] =
     (if idx < n then [\<lparr>seg_start = idx, seg_end = n, seg_underline = False\<rparr>] else [])"
| "renderSegments n idx (r # rs) =
     (case clampRange n r of (s, e) \<Rightarrow>
        (if idx < s then [\<lparr>seg_start = idx, seg_end = s, seg_underline = False\<rparr>] else [])
        @ (if s < e then [\<lparr>seg_start = s, seg_end = e, seg_underline = True\<rparr>] else [])
        @ renderSegments n e rs)"

text \<open>\<open>render\<close> returns the span list it leaves in \<open>spanNodes\<close>.\<close>

definition render :: "string \<Rightarrow> ProofreadRange list \<Rightarrow> Segment list" where
  "render t ranges =
     (if t = [] then []
      else filter (\<lambda>seg. jsSlice t (seg_start seg) (seg_end seg) \<noteq> [])
             (renderSegments (int (length t)) 0 (sortAscending ranges)))"

section \<open>JavaScript strings and errors\<close>

text \<open>\<open>toLowerCase\<close> on the ASCII letters (the only ones the markers \<open>aborterror\<close> and
  \<open>cancel\<close> can come from).\<close>

definition lowerChar :: "char \<Rightarrow> char" where
  "lowerChar c =
     (case map_of (zip ''ABCDEFGHIJKLMNOPQRSTUVWXYZ'' ''abcdefghijklmnopqrstuvwxyz'') c of
        Some d \<Rightarrow> d
      | None \<Rightarrow> c)"

definition toLowerCase :: "string \<Rightarrow> string" where
  "toLowerCase t = map lowerChar t"

text \<open>\<open>hay.includes(needle)\<close>.\<close>

fun jsIncludes :: "string \<Rightarrow> string \<Rightarrow> bool" where
  "jsIncludes [] needle = (needle = [])"
| "jsIncludes (h # hs) needle = (prefix needle (h # hs) \<or> jsIncludes hs needle)"

definition isSpaceChar :: "char \<Rightarrow> bool" where
  "isSpaceChar c \<longleftrightarrow> c \<in> set [CHR 0x09, CHR 0x0A, CHR 0x0B, CHR 0x0C, CHR 0x0D, CHR '' '']"

definition jsTrim :: "string \<Rightarrow> string" where
  "jsTrim t = rev (dropWhile isSpaceChar (rev (dropWhile isSpaceChar t)))"

text \<open>A thrown value: an Error object with its name and message, or a string.\<close>

datatype JsError = ErrorObj string string | ThrownString string

fun errName :: "JsError \<Rightarrow> string" where
  "errName (ErrorObj n m) = n"
| "errName (ThrownString t) = []"

fun errMessage :: "JsError \<Rightarrow> string" where
  "errMessage (ErrorObj n m) = m"
| "errMessage (ThrownString t) = []"

text \<open>\<open>String(e)\<close>, that is \<open>Error.prototype.toString\<close> on an Error object: the name when
  the message is empty, the message when the name is empty, \<open>name: message\<close> otherwise.\<close>

fun errToString :: "JsError \<Rightarrow> string" where
  "errToString (ErrorObj n m) =
     (if n = [] then m else if m = [] then n else n @ '': '' @ m)"
| "errToString (ThrownString t) = t"

text \<open>\<open>e?.message || String(e)\<close> of the message listener, and
  \<open>(e?.message || e || '').toString()\<close> of the proofread handler: both fall back to the
  string form of the error when the message is empty.\<close>

definition errText :: "JsError \<Rightarrow> string" where
  "errText e = (if errMessage e \<noteq> [] then errMessage e else errToString e)"

definition newError :: "string \<Rightarrow> JsError" where
  "newError m = ErrorObj ''Error'' m"

text \<open>The test of the \<open>catch\<close> block of the proofread handler.\<close>

definition isCancellation :: "JsError \<Rightarrow> bool" where
  "isCancellation e \<longleftrightarrow>
     (let msg = toLowerCase (errText e);
          name = toLowerCase (errName e)
      in name = ''aborterror'' \<or> jsIncludes msg ''cancel'')"


text \<open>The cancellation class in the words of the specification: the name of the error is
  \<open>AbortError\<close>, case-insensitively, or its message contains the marker.\<close>

definition spec_cancellationClass :: "JsError \<Rightarrow> bool" where
  "spec_cancellationClass e \<longleftrightarrow>
     toLowerCase (errName e) = ''aborterror'' \<or> jsIncludes (toLowerCase (errMessage e)) ''cancel''"

section \<open>Model registry (in-page script)\<close>

datatype Kind = Writer | Rewriter | Proofreader

datatype Availability = Available | Downloadable | Unavailable

text \<open>A creation in flight waits first for the availability probe, then for \<open>create()\<close>.\<close>

datatype Phase = Probing | Instantiating

text \<open>
  Engine instances and creation promises are named by numbers. \<open>cached\<close> and \<open>creating\<close>
  are the three \<open>cachedX\<close> and the three \<open>xCreating\<close> variables; \<open>tasks\<close> are the
  creation bodies that have started and not finished; \<open>settled\<close> holds the outcome of
  every creation promise that has settled; \<open>released\<close> lists the instances handed to
  \<open>safeDispose\<close>.
\<close>

record Registry =
  cached :: "Kind \<Rightarrow> nat option"
  creating :: "Kind \<Rightarrow> nat option"
  tasks :: "(nat \<times> Kind \<times> Phase) list"
  settled :: "(nat \<times> (JsError + nat)) list"
  nextPromise :: nat
  released :: "nat list"

definition initRegistry :: Registry where
  "initRegistry =
     \<lparr>cached = (\<lambda>k. None), creating = (\<lambda>k. None), tasks = [], settled = [],
      nextPromise = 0, released = []\<rparr>"

text \<open>What a getter hands to its caller: an instance at once, or a creation promise.\<close>

datatype GetResult = Immediate nat | Awaits nat

definition getEngine :: "Kind \<Rightarrow> Registry \<Rightarrow> GetResult \<times> Registry" where
  "getEngine k reg =
     (case cached reg k of
        Some inst \<Rightarrow> (Immediate inst, reg)
      | None \<Rightarrow>
        (case creating reg k of
           Some p \<Rightarrow> (Awaits p, reg)
         | None \<Rightarrow>
           (let p = nextPromise reg
            in (Awaits p,
                reg\<lparr>creating := (creating reg)(k := Some p),
                    tasks := tasks reg @ [(p, k, Probing)],
                    nextPromise := p + 1\<rparr>))))"

definition getWriter :: "Registry \<Rightarrow> GetResult \<times> Registry" where
  "getWriter = getEngine Writer"

definition getRewriter :: "Registry \<Rightarrow> GetResult \<times> Registry" where
  "getRewriter = getEngine Rewriter"

definition getProofreader :: "Registry \<Rightarrow> GetResult \<times> Registry" where
  "getProofreader = getEngine Proofreader"

fun kindName :: "Kind \<Rightarrow> string" where
  "kindName Writer = ''Writer''"
| "kindName Rewriter = ''Rewriter''"
| "kindName Proofreader = ''Proofreader''"

definition removeTask :: "nat \<Rightarrow> (nat \<times> Kind \<times> Phase) list \<Rightarrow> (nat \<times> Kind \<times> Phase) list" where
  "removeTask p ts = filter (\<lambda>t. fst t \<noteq> p) ts"

text \<open>The availability probe of creation \<open>p\<close> settles: \<open>unavailable\<close> throws, and the
  \<open>catch\<close> clears the marker; any other answer calls \<open>create()\<close>.\<close>

definition availabilitySettled :: "nat \<Rightarrow> Availability \<Rightarrow> Registry \<Rightarrow> Registry" where
  "availabilitySettled p a reg =
     (case map_of (tasks reg) p of
        Some (k, Probing) \<Rightarrow>
          (if a = Unavailable
           then reg\<lparr>creating := (creating reg)(k := None),
                    tasks := removeTask p (tasks reg),
                    settled := settled reg
                      @ [(p, Inl (newError (kindName k @ '' API unavailable in this browser.'')))]\<rparr>
           else reg\<lparr>tasks := map (\<lambda>t. if fst t = p then (p, k, Instantiating) else t) (tasks reg)\<rparr>)
      | _ \<Rightarrow> reg)"

text \<open>\<open>create()\<close> of creation \<open>p\<close> returns \<open>inst\<close>: the instance is cached and the marker
  cleared.\<close>

definition createFulfilled :: "nat \<Rightarrow> nat \<Rightarrow> Registry \<Rightarrow> Registry" where
  "createFulfilled p inst reg =
     (case map_of (tasks reg) p of
        Some (k, Instantiating) \<Rightarrow>
          reg\<lparr>cached := (cached reg)(k := Some inst),
              creating := (creating reg)(k := None),
              tasks := removeTask p (tasks reg),
              settled := settled reg @ [(p, Inr inst)]\<rparr>
      | _ \<Rightarrow> reg)"

text \<open>\<open>create()\<close> of creation \<open>p\<close> throws: the \<open>catch\<close> clears the marker and rethrows.\<close>

definition createRejected :: "nat \<Rightarrow> JsError \<Rightarrow> Registry \<Rightarrow> Registry" where
  "createRejected p e reg =
     (case map_of (tasks reg) p of
        Some (k, Instantiating) \<Rightarrow>
          reg\<lparr>creating := (creating reg)(k := None),
              tasks := removeTask p (tasks reg),
              settled := settled reg @ [(p, Inl e)]\<rparr>
      | _ \<Rightarrow> reg)"

definition safeDispose :: "nat option \<Rightarrow> nat list \<Rightarrow> nat list" where
  "safeDispose obj rel = (case obj of None \<Rightarrow> rel | Some inst \<Rightarrow> rel @ [inst])"

definition disposeModels :: "Registry \<Rightarrow> Registry" where
  "disposeModels reg =
     reg\<lparr>released := safeDispose (cached reg Proofreader)
                      (safeDispose (cached reg Rewriter)
                        (safeDispose (cached reg Writer) (released reg))),
         cached := (\<lambda>k. None),
         creating := (\<lambda>k. None)\<rparr>"

definition disposeNonProofreader :: "Registry \<Rightarrow> Registry" where
  "disposeNonProofreader reg =
     reg\<lparr>released := safeDispose (cached reg Rewriter)
                      (safeDispose (cached reg Writer) (released reg)),
         cached := (cached reg)(Writer := None, Rewriter := None)\<rparr>"

text \<open>The turns of the event loop that touch the registry.\<close>

datatype RegEvent =
    Get Kind
  | AvailabilitySettled nat Availability
  | CreateFulfilled nat nat
  | CreateRejected nat JsError
  | DisposeModels
  | DisposeNonProofreader

fun regStep :: "Registry \<Rightarrow> RegEvent \<Rightarrow> Registry" where
  "regStep reg (Get k) = snd (getEngine k reg)"
| "regStep reg (AvailabilitySettled p a) = availabilitySettled p a reg"
| "regStep reg (CreateFulfilled p inst) = createFulfilled p inst reg"
| "regStep reg (CreateRejected p e) = createRejected p e reg"
| "regStep reg DisposeModels = disposeModels reg"
| "regStep reg DisposeNonProofreader = disposeNonProofreader reg"

definition regRun :: "Registry \<Rightarrow> RegEvent list \<Rightarrow> Registry" where
  "regRun reg evs = foldl regStep reg evs"

text \<open>The creations of kind \<open>k\<close> in flight, and those of them inside \<open>create()\<close>.\<close>

definition inFlight :: "Kind \<Rightarrow> Registry \<Rightarrow> nat list" where
  "inFlight k reg = map fst (filter (\<lambda>t. fst (snd t) = k) (tasks reg))"

definition runningCreates :: "Kind \<Rightarrow> Registry \<Rightarrow> nat list" where
  "runningCreates k reg =
     map fst (filter (\<lambda>t. snd t = (k, Instantiating)) (tasks reg))"

fun isDisposeModels :: "RegEvent \<Rightarrow> bool" where
  "isDisposeModels DisposeModels = True"
| "isDisposeModels _ = False"

text \<open>In the run of the events from \<open>reg\<close>, \<open>disposeModels\<close> runs only while no creation is
  in flight.\<close>

fun disposeAtRest :: "Registry \<Rightarrow> RegEvent list \<Rightarrow> bool" where
  "disposeAtRest reg [] = True"
| "disposeAtRest reg (ev # evs) =
     ((if isDisposeModels ev then tasks reg = [] else True) \<and> disposeAtRest (regStep reg ev) evs)"


text \<open>An invariant of the registry while \<open>disposeModels\<close> does not run during a creation:
  the creations in flight have different promises, all handed out before, and each of them is the one its
  kind's marker names.\<close>

definition regInv :: "Registry \<Rightarrow> bool" where
  "regInv reg \<longleftrightarrow>
     distinct (map fst (tasks reg))
     \<and> (\<forall>t\<in>set (tasks reg). fst t < nextPromise reg \<and> creating reg (fst (snd t)) = Some (fst t))
     \<and> (\<forall>k p. creating reg k = Some p \<longrightarrow> (\<exists>ph. (p, k, ph) \<in> set (tasks reg)))"

section \<open>Request handler and liveness state (in-page script)\<close>

text \<open>
  An awaited promise settles with a value, settles with a thrown error, or never settles.
  The outcomes of the engine calls that \<open>handle\<close> awaits are inputs of the model
  (\<open>Env\<close>); how the getters act on the registry is the subject of the section above.
\<close>

datatype 'a Settled = Fulfilled 'a | Rejected JsError | Pending

fun awaitThen :: "'a Settled \<Rightarrow> ('a \<Rightarrow> 'b Settled) \<Rightarrow> 'b Settled" where
  "awaitThen (Fulfilled x) f = f x"
| "awaitThen (Rejected e) f = Rejected e"
| "awaitThen Pending f = Pending"

record Params =
  q_model :: "string option"
  q_prompt :: "string option"
  q_tone :: "string option"
  q_length :: "string option"
  q_text :: "string option"
  q_context :: "string option"

record Env =
  env_warmupSettles :: bool
  env_getWriter :: "string option \<Rightarrow> string option \<Rightarrow> nat Settled"
  env_getRewriter :: "string option \<Rightarrow> string option \<Rightarrow> nat Settled"
  env_getProofreader :: "nat Settled"
  env_write :: "nat \<Rightarrow> string \<Rightarrow> string Settled"
  env_rewrite :: "nat \<Rightarrow> string \<Rightarrow> string \<Rightarrow> string Settled"
  env_proofread :: "nat \<Rightarrow> string \<Rightarrow> ApiResult option Settled"

datatype HandleResult =
    RPing int
  | ROk
  | REnsured string
  | RString string
  | RPayload ProofreadPayload

record Inpage =
  registry :: Registry
  lastActivityAt :: int
  lastPingAt :: int

text \<open>\<open>String(x || '')\<close> on an optional string, and a field of the optional \<open>params\<close>.\<close>

definition strOrEmpty :: "string option \<Rightarrow> string" where
  "strOrEmpty x = (case x of Some t \<Rightarrow> t | None \<Rightarrow> [])"

definition param :: "(Params \<Rightarrow> string option) \<Rightarrow> Params option \<Rightarrow> string option" where
  "param f ps = (case ps of Some q \<Rightarrow> f q | None \<Rightarrow> None)"

definition mapWriterTone :: "string option \<Rightarrow> string option" where
  "mapWriterTone t =
     (case t of
        None \<Rightarrow> None
      | Some v \<Rightarrow> if v = [] then None
                  else if v = ''neutral'' \<or> v = ''casual'' \<or> v = ''formal'' then Some v
                  else None)"

definition mapWriterLength :: "string option \<Rightarrow> string option" where
  "mapWriterLength l =
     (case l of
        None \<Rightarrow> None
      | Some v \<Rightarrow> if v = [] then None
                  else if v = ''short'' \<or> v = ''medium'' \<or> v = ''long'' then Some v
                  else None)"

definition mapRewriterTone :: "string option \<Rightarrow> string option" where
  "mapRewriterTone t =
     (case t of
        None \<Rightarrow> None
      | Some v \<Rightarrow> if v = [] then None
                  else if v = ''more-casual'' \<or> v = ''as-is'' \<or> v = ''more-formal'' then Some v
                  else None)"

definition mapRewriterLength :: "string option \<Rightarrow> string option" where
  "mapRewriterLength l =
     (case l of
        None \<Rightarrow> None
      | Some v \<Rightarrow> if v = [] then None
                  else if v = ''shorter'' \<or> v = ''as-is'' \<or> v = ''longer'' then Some v
                  else None)"

definition defaultInstruction :: string where
  "defaultInstruction =
     ''Only rewrite the provided text according to the requested tone/length. ''
     @ ''Preserve the original meaning and information. ''
     @ ''Do not add new ideas, remove content, or include explanations. ''
     @ ''Return only the rewritten text.''"

definition cancelledPayload :: "string \<Rightarrow> ProofreadPayload" where
  "cancelledPayload base =
     \<lparr>p_corrected = base, p_corrections = [], p_ranges = [], p_cancelled = True\<rparr>"

text \<open>The \<open>try\<close>/\<open>catch\<close> around the engine's proofread call.\<close>

definition proofreadOutcome :: "string \<Rightarrow> ApiResult option Settled \<Rightarrow> HandleResult Settled" where
  "proofreadOutcome base r =
     (case r of
        Fulfilled res \<Rightarrow> Fulfilled (RPayload (buildProofreadPayload base res))
      | Rejected e \<Rightarrow>
          if isCancellation e then Fulfilled (RPayload (cancelledPayload base))
          else Rejected e
      | Pending \<Rightarrow> Pending)"

text \<open>The method names with a \<open>case\<close> in \<open>handle\<close>.\<close>

definition knownMethods :: "string list" where
  "knownMethods =
     [''ping'', ''warmup'', ''ensure'', ''dispose'', ''disposeNonProofreader'', ''write'',
      ''rewrite'', ''proofread'']"

text \<open>\<open>handle(method, params)\<close> at time \<open>now\<close> (the value of \<open>Date.now()\<close>).\<close>

definition handle ::
  "Env \<Rightarrow> int \<Rightarrow> string \<Rightarrow> Params option \<Rightarrow> Inpage \<Rightarrow> HandleResult Settled \<times> Inpage" where
  "handle env now method ps st =
     (if method = ''ping'' then
        (Fulfilled (RPing now), st\<lparr>lastPingAt := now\<rparr>)
      else if method = ''warmup'' then
        ((if env_warmupSettles env then Fulfilled ROk else Pending), st\<lparr>lastActivityAt := now\<rparr>)
      else if method = ''ensure'' then
        (let which = toLowerCase (strOrEmpty (param q_model ps))
         in ((if which = ''proofreader'' then
                awaitThen (env_getProofreader env) (\<lambda>i. Fulfilled (REnsured ''proofreader''))
              else if which = ''writer'' then
                awaitThen (env_getWriter env None None) (\<lambda>i. Fulfilled (REnsured ''writer''))
              else if which = ''rewriter'' then
                awaitThen (env_getRewriter env None None) (\<lambda>i. Fulfilled (REnsured ''rewriter''))
              else Rejected (newError (''Unknown model: '' @ which))),
             st\<lparr>lastActivityAt := now\<rparr>))
      else if method = ''dispose'' then
        (Fulfilled ROk, st\<lparr>registry := disposeModels (registry st)\<rparr>)
      else if method = ''disposeNonProofreader'' then
        (Fulfilled ROk, st\<lparr>registry := disposeNonProofreader (registry st)\<rparr>)
      else if method = ''write'' then
        (awaitThen
           (env_getWriter env (mapWriterTone (param q_tone ps)) (mapWriterLength (param q_length ps)))
           (\<lambda>writer. awaitThen (env_write env writer (strOrEmpty (param q_prompt ps)))
              (\<lambda>res. Fulfilled (RString res))),
         st\<lparr>lastActivityAt := now\<rparr>)
      else if method = ''rewrite'' then
        (awaitThen
           (env_getRewriter env (mapRewriterTone (param q_tone ps))
              (mapRewriterLength (param q_length ps)))
           (\<lambda>rewriter.
              let instruction =
                    (case param q_context ps of
                       Some c \<Rightarrow> if c \<noteq> [] then c else defaultInstruction
                     | None \<Rightarrow> defaultInstruction)
              in awaitThen (env_rewrite env rewriter (strOrEmpty (param q_text ps)) instruction)
                   (\<lambda>res. Fulfilled (RString (jsTrim res)))),
         st\<lparr>lastActivityAt := now\<rparr>)
      else if method = ''proofread'' then
        (awaitThen (env_getProofreader env)
           (\<lambda>proofreader.
              let base = strOrEmpty (param q_text ps)
              in proofreadOutcome base (env_proofread env proofreader base)),
         st\<lparr>lastActivityAt := now\<rparr>)
      else (Rejected (newError (''Unknown method: '' @ method)), st))"

text \<open>The message envelope of a request and of a response.\<close>

record Request =
  m_gx :: bool
  m_direction :: string
  m_id :: nat
  m_method :: string
  m_params :: "Params option"

record Response =
  s_gx :: bool
  s_direction :: string
  s_id :: nat
  s_result :: "HandleResult option"
  s_error :: "string option"

definition postResponse :: "nat \<Rightarrow> HandleResult option \<Rightarrow> string option \<Rightarrow> Response" where
  "postResponse i res err =
     \<lparr>s_gx = True, s_direction = ''inpage->cs'', s_id = i, s_result = res, s_error = err\<rparr>"

text \<open>The in-page message listener: the responses it posts, and the new state. \<open>None\<close> is
  an event without data.\<close>

definition inpageListener ::
  "Env \<Rightarrow> int \<Rightarrow> Request option \<Rightarrow> Inpage \<Rightarrow> Response list \<times> Inpage" where
  "inpageListener env now data st =
     (case data of
        None \<Rightarrow> ([], st)
      | Some d \<Rightarrow>
          if \<not> m_gx d \<or> m_direction d \<noteq> ''cs->inpage'' then ([], st)
          else (case handle env now (m_method d) (m_params d) st of
                  (Fulfilled res, st') \<Rightarrow> ([postResponse (m_id d) (Some res) None], st')
                | (Rejected e, st') \<Rightarrow> ([postResponse (m_id d) None (Some (errText e))], st')
                | (Pending, st') \<Rightarrow> ([], st')))"

text \<open>Every awaited engine call of the environment settles.\<close>

definition envSettles :: "Env \<Rightarrow> bool" where
  "envSettles env \<longleftrightarrow>
     env_warmupSettles env
     \<and> (\<forall>t l. env_getWriter env t l \<noteq> Pending)
     \<and> (\<forall>t l. env_getRewriter env t l \<noteq> Pending)
     \<and> env_getProofreader env \<noteq> Pending
     \<and> (\<forall>i t. env_write env i t \<noteq> Pending)
     \<and> (\<forall>i t c. env_rewrite env i t c \<noteq> Pending)
     \<and> (\<forall>i t. env_proofread env i t \<noteq> Pending)"

subsection \<open>Idle monitor\<close>

definition MODEL_IDLE_MS :: int where "MODEL_IDLE_MS = 30000"
definition PING_MISS_MS :: int where "PING_MISS_MS = 30000"
definition HIDDEN_IDLE_MS :: int where "HIDDEN_IDLE_MS = 20000"
definition CHECK_INTERVAL_MS :: int where "CHECK_INTERVAL_MS = 15000"

definition shouldDispose :: "int \<Rightarrow> bool \<Rightarrow> Inpage \<Rightarrow> bool" where
  "shouldDispose now hidden st \<longleftrightarrow>
     (let sinceActivity = now - lastActivityAt st;
          sincePing = now - lastPingAt st;
          activityLimit = (if hidden then HIDDEN_IDLE_MS else MODEL_IDLE_MS)
      in sinceActivity > activityLimit \<or> sincePing > PING_MISS_MS)"

text \<open>One run of the interval callback at time \<open>now\<close>; \<open>hidden\<close> is
  \<open>document.visibilityState === 'hidden'\<close>.\<close>

definition idleCheck :: "int \<Rightarrow> bool \<Rightarrow> Inpage \<Rightarrow> Inpage" where
  "idleCheck now hidden st =
     (if shouldDispose now hidden st
      then st\<lparr>registry := disposeModels (registry st), lastActivityAt := now, lastPingAt := now\<rparr>
      else st)"

text \<open>A stretch without requests: the callback runs at each of the given times, each with
  the visibility of the page at that time; the result counts the runs that called
  \<open>disposeModels\<close>.\<close>

fun idleDisposals :: "Inpage \<Rightarrow> (int \<times> bool) list \<Rightarrow> nat" where
  "idleDisposals st [] = 0"
| "idleDisposals st ((now, hidden) # ts) =
     (if shouldDispose now hidden st then 1 else 0) + idleDisposals (idleCheck now hidden st) ts"

section \<open>Correlation bridge (content script)\<close>

text \<open>
  \<open>pending\<close> is the key set of the \<open>pending\<close> map; the promise returned by the call with
  id \<open>i\<close> is settled through the entry stored under \<open>i\<close>, and \<open>outcome\<close> records how each
  promise has settled (a settled promise ignores later calls of its \<open>resolve\<close> or
  \<open>reject\<close>). \<open>timers\<close> are the armed timeout timers with their deadlines, \<open>posted\<close> the
  requests posted to the page. Times are milliseconds, as \<open>Date.now()\<close> gives them; the
  request counter is a natural number (the source's number stays exact below \<open>2^53\<close>).
\<close>

datatype CallOutcome = Resolved "HandleResult option" | Failed string

record Bridge =
  reqCounter :: nat
  pending :: "nat set"
  outcome :: "nat \<Rightarrow> CallOutcome option"
  timers :: "(int \<times> nat) list"
  posted :: "Request list"

definition initBridge :: Bridge where
  "initBridge =
     \<lparr>reqCounter = 1, pending = {}, outcome = (\<lambda>i. None), timers = [], posted = []\<rparr>"

definition TIMEOUT_MS :: int where "TIMEOUT_MS = 60000"

definition settle :: "nat \<Rightarrow> CallOutcome \<Rightarrow> (nat \<Rightarrow> CallOutcome option) \<Rightarrow> nat \<Rightarrow> CallOutcome option" where
  "settle i v oc = (case oc i of None \<Rightarrow> oc(i := Some v) | Some w \<Rightarrow> oc)"

text \<open>\<open>callInpage(method, params)\<close> at time \<open>now\<close>, after the in-page script is present:
  the id of the call and the new state.\<close>

definition callInpage :: "int \<Rightarrow> string \<Rightarrow> Params option \<Rightarrow> Bridge \<Rightarrow> nat \<times> Bridge" where
  "callInpage now method ps br =
     (let i = reqCounter br
      in (i, br\<lparr>reqCounter := i + 1,
                 pending := insert i (pending br),
                 timers := timers br @ [(now + TIMEOUT_MS, i)],
                 posted := posted br
                   @ [\<lparr>m_gx = True, m_direction = ''cs->inpage'', m_id = i,
                        m_method = method, m_params = ps\<rparr>]\<rparr>))"

text \<open>The callback of the timeout timer of call \<open>i\<close>.\<close>

definition timeoutCallback :: "nat \<Rightarrow> Bridge \<Rightarrow> Bridge" where
  "timeoutCallback i br =
     (if i \<in> pending br
      then br\<lparr>pending := pending br - {i},
              outcome := settle i (Failed ''In-page call timed out'') (outcome br)\<rparr>
      else br)"

text \<open>The timers that are due at time \<open>now\<close> run, in the order they were armed.\<close>

definition runTimers :: "int \<Rightarrow> Bridge \<Rightarrow> Bridge" where
  "runTimers now br =
     foldl (\<lambda>b t. timeoutCallback (snd t) b)
       (br\<lparr>timers := filter (\<lambda>t. now < fst t) (timers br)\<rparr>)
       (filter (\<lambda>t. fst t \<le> now) (timers br))"

text \<open>The message listener of the content script.\<close>

definition bridgeListener :: "Response option \<Rightarrow> Bridge \<Rightarrow> Bridge" where
  "bridgeListener data br =
     (case data of
        None \<Rightarrow> br
      | Some d \<Rightarrow>
          if \<not> s_gx d \<or> s_direction d \<noteq> ''inpage->cs'' then br
          else if s_id d \<notin> pending br then br
          else (case s_error d of
                  Some err \<Rightarrow>
                    if err \<noteq> []
                    then br\<lparr>pending := pending br - {s_id d},
                            outcome := settle (s_id d) (Failed err) (outcome br)\<rparr>
                    else br\<lparr>pending := pending br - {s_id d},
                            outcome := settle (s_id d) (Resolved (s_result d)) (outcome br)\<rparr>
                | None \<Rightarrow>
                    br\<lparr>pending := pending br - {s_id d},
                       outcome := settle (s_id d) (Resolved (s_result d)) (outcome br)\<rparr>))"

datatype BridgeEvent =
    Call int string "Params option"
  | Message "Response option"
  | Timers int

fun bridgeStep :: "Bridge \<Rightarrow> BridgeEvent \<Rightarrow> Bridge" where
  "bridgeStep br (Call now method ps) = snd (callInpage now method ps br)"
| "bridgeStep br (Message data) = bridgeListener data br"
| "bridgeStep br (Timers now) = runTimers now br"

definition bridgeRun :: "Bridge \<Rightarrow> BridgeEvent list \<Rightarrow> Bridge" where
  "bridgeRun br evs = foldl bridgeStep br evs"

text \<open>The event is a response message that carries id \<open>i\<close>.\<close>

fun answers :: "nat \<Rightarrow> BridgeEvent \<Rightarrow> bool" where
  "answers i (Message (Some d)) = (s_id d = i)"
| "answers i _ = False"

text \<open>The event does not run the timers at or after time \<open>d\<close>.\<close>

fun timersBefore :: "int \<Rightarrow> BridgeEvent \<Rightarrow> bool" where
  "timersBefore d (Timers now) = (now < d)"
| "timersBefore d _ = True"

text \<open>An invariant of the bridge: the ids in the table and of the timers are below the
  counter, a call in the table has not settled, and an id not yet handed out has no
  outcome.\<close>

definition bridgeInv :: "Bridge \<Rightarrow> bool" where
  "bridgeInv br \<longleftrightarrow>
     (\<forall>j\<in>pending br. j < reqCounter br \<and> outcome br j = None)
     \<and> (\<forall>j. reqCounter br \<le> j \<longrightarrow> outcome br j = None)
     \<and> (\<forall>t\<in>set (timers br). snd t < reqCounter br)"

section \<open>Realtime pipeline (content script)\<close>

definition MAX_REALTIME_CHARS :: nat where "MAX_REALTIME_CHARS = 2000"
definition MIN_INTERVAL_MS :: int where "MIN_INTERVAL_MS = 700"

text \<open>What the armed debounce timer will run: the debounced callback of \<open>schedule\<close> with
  its \<open>immediate\<close> flag, or the rescheduling callback \<open>() => schedule(true)\<close>.\<close>

datatype TimerBody = Debounced bool | Reschedule

text \<open>
  The refs of the component and the overlay of the session: \<open>inflight\<close> is
  \<open>inflightRef.current\<close>, \<open>lastProofreadAt\<close> is \<open>lastProofreadAtRef.current || 0\<close>,
  \<open>debounce\<close> the armed timer (delay and body), \<open>overlayMounted\<close> says whether
  \<open>overlayRef.current\<close> is set, and \<open>rendered\<close> is the span list of the last \<open>render\<close>.
  The staleness counter is a natural number (the source's number stays exact below
  \<open>2^53\<close>).
\<close>

record Session =
  inflight :: nat
  lastText :: string
  lastRanges :: "ProofreadRange list"
  lastProofreadAt :: int
  debounce :: "(int \<times> TimerBody) option"
  overlayMounted :: bool
  rendered :: "Segment list"

definition schedule :: "bool \<Rightarrow> Session \<Rightarrow> Session" where
  "schedule immediate st =
     st\<lparr>debounce := Some ((if immediate then 0 else 350), Debounced immediate)\<rparr>"

datatype Fired = Skipped | Rescheduled int | Issued nat string

text \<open>The debounced callback up to its first \<open>await\<close>, at time \<open>now\<close> on the current text
  of the target: what it did, and the new state.\<close>

definition debouncedCallback :: "bool \<Rightarrow> string \<Rightarrow> int \<Rightarrow> Session \<Rightarrow> Fired \<times> Session" where
  "debouncedCallback immediate t now st =
     (if length t > MAX_REALTIME_CHARS
      then (Skipped, st\<lparr>debounce := None, overlayMounted := False\<rparr>)
      else (let elapsed = now - lastProofreadAt st
            in if elapsed < MIN_INTERVAL_MS \<and> \<not> immediate
               then (Rescheduled (MIN_INTERVAL_MS - elapsed),
                     st\<lparr>debounce := Some (MIN_INTERVAL_MS - elapsed, Reschedule)\<rparr>)
               else (let token = inflight st + 1
                     in (Issued token t, st\<lparr>debounce := None, inflight := token\<rparr>))))"

text \<open>The armed timer runs.\<close>

definition timerFires :: "string \<Rightarrow> int \<Rightarrow> Session \<Rightarrow> Fired \<times> Session" where
  "timerFires t now st =
     (case debounce st of
        None \<Rightarrow> (Skipped, st)
      | Some (d, Debounced immediate) \<Rightarrow> debouncedCallback immediate t now st
      | Some (d, Reschedule) \<Rightarrow> (Skipped, schedule True st))"

text \<open>How the bridge call of a proofread ends: with a payload (or a nullish result), or
  with the message of an error.\<close>

datatype CallResult = Result "ProofreadPayload option" | Error string

text \<open>The rest of the debounced callback, run when the call with \<open>token\<close> for text \<open>t\<close>
  ends at time \<open>now\<close>.\<close>

definition responseHandler :: "nat \<Rightarrow> string \<Rightarrow> CallResult \<Rightarrow> int \<Rightarrow> Session \<Rightarrow> Session" where
  "responseHandler token t res now st =
     (case (case res of
              Result r \<Rightarrow> Some r
            | Error msg \<Rightarrow>
                if jsIncludes (toLowerCase msg) ''cancel''
                then Some (Some (cancelledPayload t)) else None) of
        None \<Rightarrow> st
      | Some r \<Rightarrow>
          if token \<noteq> inflight st then st
          else if (case r of Some pl \<Rightarrow> p_cancelled pl | None \<Rightarrow> False) then st
          else (let ranges = (case r of Some pl \<Rightarrow> p_ranges pl | None \<Rightarrow> [])
                in st\<lparr>lastText := t, lastRanges := ranges, lastProofreadAt := now,
                      rendered := render t ranges\<rparr>))"

text \<open>The start of \<open>proofreadNow\<close> on the current text \<open>t\<close> of the target: the text of the
  call it issues, or \<open>None\<close> when it returns at once because the overlay is gone. It reads
  and writes no counter.\<close>

definition proofreadNow :: "string \<Rightarrow> Session \<Rightarrow> string option" where
  "proofreadNow t st = (if overlayMounted st then Some t else None)"

text \<open>The rest of \<open>proofreadNow\<close> (the refresh after a suggestion was applied), run when
  its call for text \<open>t\<close> ends: it captures no token and tests none; a rejected call is
  swallowed, and \<open>overlayRef.current.render\<close> throws, after the two refs are written, when
  the overlay is gone.\<close>

definition refreshHandler :: "string \<Rightarrow> CallResult \<Rightarrow> Session \<Rightarrow> Session" where
  "refreshHandler t res st =
     (case res of
        Error msg \<Rightarrow> st
      | Result r \<Rightarrow>
          (let ranges = (case r of Some pl \<Rightarrow> p_ranges pl | None \<Rightarrow> [])
           in st\<lparr>lastText := t, lastRanges := ranges,
                 rendered := (if overlayMounted st then render t ranges else rendered st)\<rparr>))"

text \<open>The cleanup of the realtime effect.\<close>

definition cleanup :: "Session \<Rightarrow> Session" where
  "cleanup st = st\<lparr>debounce := None, inflight := inflight st + 1, overlayMounted := False\<rparr>"

datatype RtEvent =
    Schedule bool
  | TimerFires string int
  | ResponseArrives nat string CallResult int
  | RefreshArrives string CallResult
  | Cleanup

fun rtStep :: "Session \<Rightarrow> RtEvent \<Rightarrow> Session" where
  "rtStep st (Schedule immediate) = schedule immediate st"
| "rtStep st (TimerFires t now) = snd (timerFires t now st)"
| "rtStep st (ResponseArrives token t res now) = responseHandler token t res now st"
| "rtStep st (RefreshArrives t res) = refreshHandler t res st"
| "rtStep st Cleanup = cleanup st"

definition rtRun :: "Session \<Rightarrow> RtEvent list \<Rightarrow> Session" where
  "rtRun st evs = foldl rtStep st evs"

section \<open>Concrete inputs\<close>

text \<open>States and environments at which the theorems below are evaluated.\<close>

definition freshInpage :: Inpage where
  "freshInpage = \<lparr>registry = initRegistry, lastActivityAt = 0, lastPingAt = 0\<rparr>"

definition noParams :: Params where
  "noParams =
     \<lparr>q_model = None, q_prompt = None, q_tone = None, q_length = None, q_text = None,
      q_context = None\<rparr>"

text \<open>Every engine call succeeds, except that the engine's proofread call throws \<open>e\<close>.\<close>

definition proofreadThrows :: "JsError \<Rightarrow> Env" where
  "proofreadThrows e =
     \<lparr>env_warmupSettles = True,
      env_getWriter = (\<lambda>t l. Fulfilled 0),
      env_getRewriter = (\<lambda>t l. Fulfilled 1),
      env_getProofreader = Fulfilled 2,
      env_write = (\<lambda>i t. Fulfilled t),
      env_rewrite = (\<lambda>i t c. Fulfilled t),
      env_proofread = (\<lambda>i t. Rejected e)\<rparr>"

text \<open>The creation of the writer never settles.\<close>

definition writerNeverCreated :: Env where
  "writerNeverCreated = (proofreadThrows (ThrownString []))\<lparr>env_getWriter := (\<lambda>t l. Pending)\<rparr>"

definition request :: "nat \<Rightarrow> string \<Rightarrow> Params \<Rightarrow> Request" where
  "request i method ps =
     \<lparr>m_gx = True, m_direction = ''cs->inpage'', m_id = i, m_method = method,
      m_params = Some ps\<rparr>"

definition freshSession :: Session where
  "freshSession =
     \<lparr>inflight = 0, lastText = [], lastRanges = [], lastProofreadAt = 0, debounce = None,
      overlayMounted = True, rendered = []\<rparr>"


section \<open>Properties of the renderer\<close>

lemma clampRange_fst_nonneg: "0 \<le> fst (clampRange n r)"
  by (simp add: clampRange_def Let_def)

lemma clampRange_fst_le_snd: "fst (clampRange n r) \<le> snd (clampRange n r)"
  by (simp add: clampRange_def Let_def)

lemma clampRange_snd_le: "fst (clampRange n r) < snd (clampRange n r) \<Longrightarrow> snd (clampRange n r) \<le> n"
  by (simp add: clampRange_def Let_def max_def min_def split: if_splits)

lemma clampRange_fst_le: "0 \<le> idx \<Longrightarrow> idx < fst (clampRange n r) \<Longrightarrow> fst (clampRange n r) \<le> n"
  by (simp add: clampRange_def Let_def max_def min_def split: if_splits)

lemma renderSegments_bounds:
  assumes "0 \<le> idx" "seg \<in> set (renderSegments n idx rs)"
  shows "0 \<le> seg_start seg \<and> seg_start seg < seg_end seg \<and> seg_end seg \<le> n"
  using assms
proof (induction rs arbitrary: idx)
  case Nil
  then show ?case by (auto split: if_splits)
next
  case (Cons r rs)
  obtain s e where cr: "clampRange n r = (s, e)" by (cases "clampRange n r")
  have se: "0 \<le> s" "s \<le> e"
    using clampRange_fst_nonneg [of n r] clampRange_fst_le_snd [of n r] by (simp_all add: cr)
  have en: "s < e \<Longrightarrow> e \<le> n"
    using clampRange_snd_le [of n r] by (simp add: cr)
  have sn: "idx < s \<Longrightarrow> s \<le> n"
    using clampRange_fst_le [of idx n r] Cons.prems(1) by (simp add: cr)
  from Cons.prems(2) cr consider
      "idx < s" "seg = \<lparr>seg_start = idx, seg_end = s, seg_underline = False\<rparr>"
    | "s < e" "seg = \<lparr>seg_start = s, seg_end = e, seg_underline = True\<rparr>"
    | "seg \<in> set (renderSegments n e rs)"
    by (auto split: if_splits)
  then show ?case
  proof cases
    case 1 then show ?thesis using Cons.prems(1) sn by simp
  next
    case 2 then show ?thesis using se en by simp
  next
    case 3 then show ?thesis using Cons.IH [of e] se by simp
  qed
qed

lemma renderSegments_underlined:
  "map (\<lambda>seg. (seg_start seg, seg_end seg)) (filter seg_underline (renderSegments n idx rs))
   = filter (\<lambda>(s, e). s < e) (map (clampRange n) rs)"
proof (induction rs arbitrary: idx)
  case Nil
  then show ?case by simp
next
  case (Cons r rs)
  obtain s e where cr: "clampRange n r = (s, e)" by (cases "clampRange n r")
  show ?case using Cons.IH [of e] by (simp add: cr)
qed

lemma jsSlice_nonempty:
  assumes "0 \<le> a" "a < b" "b \<le> int (length t)"
  shows "jsSlice t a b \<noteq> []"
  using assms by (auto simp: jsSlice_def)

lemma renderSegments_empty: "renderSegments 0 0 rs = []"
  by (induction rs) (simp_all add: clampRange_def)

lemma render_all_segments:
  "render t rs = renderSegments (int (length t)) 0 (sortAscending rs)"
proof (cases "t = []")
  case True
  then show ?thesis by (simp add: render_def renderSegments_empty)
next
  case False
  have "jsSlice t (seg_start seg) (seg_end seg) \<noteq> []"
    if "seg \<in> set (renderSegments (int (length t)) 0 (sortAscending rs))" for seg
  proof -
    have "0 \<le> seg_start seg \<and> seg_start seg < seg_end seg \<and> seg_end seg \<le> int (length t)"
      by (rule renderSegments_bounds [OF _ that]) simp
    then show ?thesis by (simp add: jsSlice_nonempty)
  qed
  then have "filter (\<lambda>seg. jsSlice t (seg_start seg) (seg_end seg) \<noteq> [])
          (renderSegments (int (length t)) 0 (sortAscending rs))
        = renderSegments (int (length t)) 0 (sortAscending rs)"
    by (intro filter_True ballI)
  then show ?thesis using False by (simp only: render_def if_False)
qed

lemma clampRange_bounds:
  assumes "0 \<le> n"
  shows "0 \<le> fst (clampRange n r) \<and> fst (clampRange n r) \<le> snd (clampRange n r)
         \<and> snd (clampRange n r) \<le> n"
  using assms by (simp add: clampRange_def Let_def)

lemma clampRange_mono:
  assumes "r_start a \<le> r_start b"
  shows "fst (clampRange n a) \<le> fst (clampRange n b)"
  using assms by (auto simp: clampRange_def Let_def)

lemma sorted_clamped:
  "sorted (map (\<lambda>r. fst (clampRange n r)) (sortAscending rs))"
proof -
  have "sorted_wrt (\<lambda>a b. r_start a \<le> r_start b) (sortAscending rs)"
    using sorted_sort_key [of r_start rs] by (simp only: sortAscending_def sorted_wrt_map)
  then have "sorted_wrt (\<lambda>a b. fst (clampRange n a) \<le> fst (clampRange n b)) (sortAscending rs)"
    by (rule sorted_wrt_mono_rel [rotated]) (simp add: clampRange_mono)
  then show ?thesis by (simp only: sorted_wrt_map)
qed

lemma normalizeRanges_direct:

  "normalizeRanges [Obj (emptyCorr\<lparr>c_start := Some a, c_end := Some b, c_replacement := t\<rparr>)]
   = [\<lparr>r_start = a, r_end = b, r_replacement = t\<rparr>]"
  by (simp add: normalizeRanges_def toRange_def corrStart_def corrEnd_def corrRepl_def
      firstSuggestion_def emptyCorr_def List.map_filter_simps split: option.splits)

lemma normalizeRanges_direct2:
  "normalizeRanges [Obj (emptyCorr\<lparr>c_start := Some a, c_end := Some b, c_replacement := t\<rparr>),
                    Obj (emptyCorr\<lparr>c_start := Some a', c_end := Some b', c_replacement := t'\<rparr>)]
   = [\<lparr>r_start = a, r_end = b, r_replacement = t\<rparr>, \<lparr>r_start = a', r_end = b', r_replacement = t'\<rparr>]"
  by (simp add: normalizeRanges_def toRange_def corrStart_def corrEnd_def corrRepl_def
      firstSuggestion_def emptyCorr_def List.map_filter_simps split: option.splits)


text \<open>
  Claim C3 (range clamp and sort), as the code has it. \<open>buildProofreadPayload\<close> returns the
  resolved ranges in the order of the engine's records, neither sorted nor clamped; the
  renderer that consumes them sorts them ascending by start and clamps each one to the
  text. For every base text and engine result: the ranges the renderer works on are sorted
  ascending by start, also after the clamp, every clamped range satisfies
  \<open>0 \<le> start \<le> end \<le> length base\<close>, and the underlined spans it draws are exactly the
  clamped ranges that are not empty, in that order.
\<close>

theorem render_sorted_clamped:
  "(let n = int (length base);
        sorted_ranges = sortAscending (p_ranges (buildProofreadPayload base api));
        clamped = map (clampRange n) sorted_ranges
    in sorted (map r_start sorted_ranges)
       \<and> sorted (map fst clamped)
       \<and> list_all (\<lambda>(s, e). 0 \<le> s \<and> s \<le> e \<and> e \<le> n) clamped
       \<and> map (\<lambda>seg. (seg_start seg, seg_end seg))
            (filter seg_underline (render base (p_ranges (buildProofreadPayload base api))))
          = filter (\<lambda>(s, e). s < e) clamped)"
proof -
  let ?rs = "p_ranges (buildProofreadPayload base api)"
  let ?n = "int (length base)"
  have 1: "sorted (map r_start (sortAscending ?rs))"
    unfolding sortAscending_def by (rule sorted_sort_key)
  have 2: "sorted (map fst (map (clampRange ?n) (sortAscending ?rs)))"
    using sorted_clamped [of ?n ?rs] by (simp add: comp_def)
  have 3: "list_all (\<lambda>(s, e). 0 \<le> s \<and> s \<le> e \<and> e \<le> ?n) (map (clampRange ?n) (sortAscending ?rs))"
    using clampRange_bounds [of ?n] by (simp add: list_all_iff case_prod_beta)
  have 4: "map (\<lambda>seg. (seg_start seg, seg_end seg)) (filter seg_underline (render base ?rs))
          = filter (\<lambda>(s, e). s < e) (map (clampRange ?n) (sortAscending ?rs))"
    by (simp only: render_all_segments renderSegments_underlined)
  show ?thesis unfolding Let_def using 1 2 3 4 by blast
qed

theorem render_sorted_clamped_witness:
  "list_all (\<lambda>(s, e). 0 \<le> s \<and> s \<le> e \<and> e \<le> 3)
     (map (clampRange 3) (sortAscending
        [\<lparr>r_start = 5, r_end = 9, r_replacement = None\<rparr>,
         \<lparr>r_start = 1, r_end = 2, r_replacement = None\<rparr>]))"
  using render_sorted_clamped [of "''abc''" "Some \<lparr>a_corrections = Some
          [Obj (emptyCorr\<lparr>c_start := Some 5, c_end := Some 9, c_replacement := None\<rparr>),
           Obj (emptyCorr\<lparr>c_start := Some 1, c_end := Some 2, c_replacement := None\<rparr>)],
        a_corrected = None, a_text = None\<rparr>"]
  by (simp add: Let_def buildProofreadPayload_def rawCorrections_def normalizeRanges_direct2)

theorem ranges_unsorted_unclamped_counterexample:
  "\<not> (let rs = p_ranges (buildProofreadPayload ''abc'' (Some \<lparr>a_corrections = Some
          [Obj (emptyCorr\<lparr>c_start := Some 5, c_end := Some 9, c_replacement := None\<rparr>),
           Obj (emptyCorr\<lparr>c_start := Some 1, c_end := Some 2, c_replacement := None\<rparr>)],
        a_corrected = None, a_text = None\<rparr>))
      in sorted (map r_start rs)
         \<and> list_all (\<lambda>r. 0 \<le> r_start r \<and> r_start r \<le> r_end r \<and> r_end r \<le> int (length ''abc'')) rs)"
  by (simp add: Let_def buildProofreadPayload_def rawCorrections_def normalizeRanges_direct2)

section \<open>Properties of the normalizer\<close>

lemma sorted_rev_map_uminus:
  fixes f :: "'a \<Rightarrow> int"
  shows "sorted (rev (map (\<lambda>x. - f x) xs)) = sorted (map f xs)"
  by (simp add: sorted_wrt_rev sorted_wrt_map)

lemma sortDescending_rev:
  assumes "distinct (map r_start rs)"
  shows "sortDescending rs = rev (sortAscending rs)"
proof -
  let ?f = "\<lambda>r. - r_start r"
  let ?xs = "sort_key ?f rs"
  let ?ys = "rev (sort_key r_start rs)"
  have inj: "inj_on r_start (set rs)" and d: "distinct rs"
    using assms by (auto simp: distinct_map)
  have injf: "inj_on ?f (set rs)"
    using inj by (auto simp: inj_on_def)
  have 1: "inj_on ?f (set ?xs \<union> set ?ys)" using injf by simp
  have 2: "sorted (map ?f ?xs)" by (rule sorted_sort_key)
  have 3: "distinct (map ?f ?xs)" using injf d by (simp add: distinct_map)
  have 4: "sorted (map ?f ?ys)"
    using sorted_sort_key [of r_start rs]
    by (simp add: rev_map [symmetric] sorted_rev_map_uminus del: sorted_sort_key)
  have 5: "distinct (map ?f ?ys)" using injf d by (simp add: distinct_map)
  have 6: "set ?xs = set ?ys" by simp
  show ?thesis
    unfolding sortDescending_def sortAscending_def
    by (rule map_sorted_distinct_set_unique [OF 1 2 3 4 5 6])
qed

lemma splice_chain:
  assumes "sorted_wrt (\<lambda>a b. r_end a \<le> r_start b) xs"
    and "\<forall>r\<in>set xs. int idx \<le> r_start r \<and> r_start r \<le> r_end r \<and> r_end r \<le> int (length base)"
  shows "foldr (\<lambda>r out. spliceRange out r) xs base = take idx base @ spec_applyFrom base idx xs"
  using assms
proof (induction xs arbitrary: idx)
  case Nil
  then show ?case by simp
next
  case (Cons r rs)
  let ?s = "nat (r_start r)"
  let ?e = "nat (r_end r)"
  define out where "out = foldr (\<lambda>r out. spliceRange out r) rs base"
  have b: "int idx \<le> r_start r" "r_start r \<le> r_end r" "r_end r \<le> int (length base)"
    using Cons.prems(2) by auto
  have ih: "out = take ?e base @ spec_applyFrom base ?e rs"
    unfolding out_def
  proof (rule Cons.IH)
    show "sorted_wrt (\<lambda>a b. r_end a \<le> r_start b) rs" using Cons.prems(1) by simp
    show "\<forall>r'\<in>set rs. int ?e \<le> r_start r' \<and> r_start r' \<le> r_end r' \<and> r_end r' \<le> int (length base)"
      using Cons.prems b by auto
  qed
  have len: "r_end r \<le> int (length out)"
    using b by (simp add: ih)
  have se: "idx \<le> ?s" "?s \<le> ?e" "?e \<le> length base" using b by auto
  have cl1: "max 0 (min (int (length out)) (r_start r)) = r_start r"
    using b len by auto
  have cl2: "max (r_start r) (min (int (length out)) (r_end r)) = r_end r"
    using b len by auto
  have cb1: "max 0 (min (int (length base)) (r_start r)) = r_start r"
    using b by auto
  have cb2: "max (r_start r) (min (int (length base)) (r_end r)) = r_end r"
    using b by auto
  have t1: "take ?s out = take ?s base"
    using se by (simp add: ih min_def)
  have t2: "drop ?e out = spec_applyFrom base ?e rs"
    using se by (simp add: ih)
  have t3: "take (?e - ?s) (drop ?s out) = take (?e - ?s) (drop ?s base)"
    using se by (simp add: ih take_drop)
  have t4: "take idx base @ take (?s - idx) (drop idx base) = take ?s base"
    using se by (metis le_add_diff_inverse take_add)
  have "spliceRange out r = take ?s base
           @ (case r_replacement r of Some t \<Rightarrow> t | None \<Rightarrow> take (?e - ?s) (drop ?s base))
           @ spec_applyFrom base ?e rs"
    unfolding spliceRange_def Let_def cl1 cl2 t1 t2 t3 ..
  moreover have "take idx base @ spec_applyFrom base idx (r # rs) = take ?s base
           @ (case r_replacement r of Some t \<Rightarrow> t | None \<Rightarrow> take (?e - ?s) (drop ?s base))
           @ spec_applyFrom base ?e rs"
    unfolding spec_applyFrom.simps Let_def cb1 cb2 using t4 by simp
  ultimately show ?case by (simp add: out_def)
qed

lemma disjoint_chain:
  assumes "disjointRanges base rs"
  shows "sorted_wrt (\<lambda>a b. r_end a \<le> r_start b) (sortAscending rs)"
proof -
  let ?xs = "sortAscending rs"
  have s: "sorted (map r_start ?xs)" unfolding sortAscending_def by (rule sorted_sort_key)
  have d: "distinct (map r_start rs)" using assms by (simp add: disjointRanges_def)
  have dx: "distinct (map r_start ?xs)"
    using d by (simp add: distinct_map sortAscending_def)
  have "sorted_wrt (<) (map r_start ?xs)"
    using s dx by (simp only: strict_sorted_iff)
  then have st: "sorted_wrt (\<lambda>a b. r_start a < r_start b) ?xs"
    by (simp only: sorted_wrt_map)
  have pw: "\<forall>a\<in>set ?xs. \<forall>b\<in>set ?xs. r_start b \<le> r_start a \<or> r_end a \<le> r_start b"
    using assms by (auto simp: disjointRanges_def list_all_iff sortAscending_def)
  show ?thesis
    by (rule sorted_wrt_mono_rel [OF _ st]) (use pw in fastforce)
qed

lemma synthesize_eq_spec:
  assumes "disjointRanges base rs"
  shows "synthesize base rs = spec_applyLeftToRight base rs"
proof -
  let ?xs = "sortAscending rs"
  have d: "distinct (map r_start rs)" using assms by (simp add: disjointRanges_def)
  have bounds: "\<forall>r\<in>set ?xs. int 0 \<le> r_start r \<and> r_start r \<le> r_end r \<and> r_end r \<le> int (length base)"
    using assms by (auto simp: disjointRanges_def list_all_iff sortAscending_def)
  have "synthesize base rs = foldl spliceRange base (rev ?xs)"
    by (simp add: synthesize_def sortDescending_rev [OF d])
  also have "\<dots> = foldr (\<lambda>r out. spliceRange out r) ?xs base"
    by (simp add: foldr_conv_foldl)
  also have "\<dots> = take 0 base @ spec_applyFrom base 0 ?xs"
    by (rule splice_chain [OF disjoint_chain [OF assms] bounds])
  finally show ?thesis by (simp add: spec_applyLeftToRight_def sortAscending_def)
qed

lemma payload_corrected:
  "p_corrected (buildProofreadPayload base api) =
     (let rs = normalizeRanges (rawCorrections api);
          c1 = (if engineCorrected api = [] \<and> rs \<noteq> [] then synthesize base rs
                else engineCorrected api)
      in if c1 = [] then base else c1)"
  by (simp add: buildProofreadPayload_def Let_def)

lemma payload_ranges:
  "p_ranges (buildProofreadPayload base api) = normalizeRanges (rawCorrections api)"
  by (simp add: buildProofreadPayload_def Let_def)

lemma synthesize_single: "synthesize base [r] = spliceRange base r"
  by (simp add: synthesize_def sortDescending_def)

lemma rawCorrections_Some [simp]:
  "rawCorrections (Some \<lparr>a_corrections = Some cs, a_corrected = c, a_text = t\<rparr>) = cs"
  by (simp add: rawCorrections_def)

lemma engineCorrected_absent [simp]:
  "engineCorrected (Some \<lparr>a_corrections = cs, a_corrected = None, a_text = None\<rparr>) = []"
  by (simp add: engineCorrected_def)

text \<open>
  Claim C4 (corrected-text synthesis), as the code has it. When the engine result carries
  no corrected string and has resolvable ranges, and these ranges lie inside \<open>base\<close>, have
  pairwise different starts and do not overlap, the string synthesized right-to-left
  equals the result of applying all edits left-to-right against the original offsets of
  \<open>base\<close>, and it is the corrected string of the payload unless it is empty. For base
  \<open>Teh cat sat\<close> with the single raw correction \<open>{start: 0, end: 3, replacement: "The"}\<close> and
  no corrected field, the corrected string is \<open>The cat sat\<close>.
\<close>

theorem synthesis_matches_left_to_right:
  "(engineCorrected api = [] \<and> normalizeRanges (rawCorrections api) \<noteq> []
      \<and> disjointRanges base (normalizeRanges (rawCorrections api))
    \<longrightarrow> synthesize base (normalizeRanges (rawCorrections api))
          = spec_applyLeftToRight base (normalizeRanges (rawCorrections api))
        \<and> p_corrected (buildProofreadPayload base api)
          = (if synthesize base (normalizeRanges (rawCorrections api)) = [] then base
             else synthesize base (normalizeRanges (rawCorrections api))))
   \<and> p_corrected (buildProofreadPayload ''Teh cat sat''
        (Some \<lparr>a_corrections = Some
           [Obj (emptyCorr\<lparr>c_start := Some 0, c_end := Some 3, c_replacement := Some ''The''\<rparr>)],
          a_corrected = None, a_text = None\<rparr>))
     = ''The cat sat''"
proof (intro conjI impI)
  assume a: "engineCorrected api = [] \<and> normalizeRanges (rawCorrections api) \<noteq> []
      \<and> disjointRanges base (normalizeRanges (rawCorrections api))"
  then show "synthesize base (normalizeRanges (rawCorrections api))
          = spec_applyLeftToRight base (normalizeRanges (rawCorrections api))"
    by (simp add: synthesize_eq_spec)
  from a show "p_corrected (buildProofreadPayload base api)
          = (if synthesize base (normalizeRanges (rawCorrections api)) = [] then base
             else synthesize base (normalizeRanges (rawCorrections api)))"
    by (simp add: payload_corrected Let_def)
next
  show "p_corrected (buildProofreadPayload ''Teh cat sat''
        (Some \<lparr>a_corrections = Some
           [Obj (emptyCorr\<lparr>c_start := Some 0, c_end := Some 3, c_replacement := Some ''The''\<rparr>)],
          a_corrected = None, a_text = None\<rparr>))
     = ''The cat sat''"
    by (simp add: payload_corrected Let_def normalizeRanges_direct synthesize_single
        spliceRange_def)
qed

theorem synthesis_matches_left_to_right_witness:
  "synthesize ''Teh cat sat''
     [\<lparr>r_start = 8, r_end = 11, r_replacement = Some ''sat.''\<rparr>,
      \<lparr>r_start = 0, r_end = 3, r_replacement = Some ''The''\<rparr>]
   = spec_applyLeftToRight ''Teh cat sat''
     [\<lparr>r_start = 8, r_end = 11, r_replacement = Some ''sat.''\<rparr>,
      \<lparr>r_start = 0, r_end = 3, r_replacement = Some ''The''\<rparr>]
   \<and> p_corrected (buildProofreadPayload ''Teh cat sat''
        (Some \<lparr>a_corrections = Some
           [Obj (emptyCorr\<lparr>c_start := Some 8, c_end := Some 11, c_replacement := Some ''sat.''\<rparr>),
            Obj (emptyCorr\<lparr>c_start := Some 0, c_end := Some 3, c_replacement := Some ''The''\<rparr>)],
          a_corrected = None, a_text = None\<rparr>))
     = ''The cat sat.''"
proof -
  let ?api = "Some \<lparr>a_corrections = Some
           [Obj (emptyCorr\<lparr>c_start := Some 8, c_end := Some 11, c_replacement := Some ''sat.''\<rparr>),
            Obj (emptyCorr\<lparr>c_start := Some 0, c_end := Some 3, c_replacement := Some ''The''\<rparr>)],
          a_corrected = None, a_text = None\<rparr>"
  have h: "engineCorrected ?api = [] \<and> normalizeRanges (rawCorrections ?api) \<noteq> []
      \<and> disjointRanges ''Teh cat sat'' (normalizeRanges (rawCorrections ?api))"
    by (simp add: normalizeRanges_direct2 disjointRanges_def)
  have s: "synthesize ''Teh cat sat''
     [\<lparr>r_start = 8, r_end = 11, r_replacement = Some ''sat.''\<rparr>,
      \<lparr>r_start = 0, r_end = 3, r_replacement = Some ''The''\<rparr>] = ''The cat sat.''"
    by (simp add: synthesize_def sortDescending_def spliceRange_def)
  from synthesis_matches_left_to_right [of ?api "''Teh cat sat''"] h
  show ?thesis by (simp add: normalizeRanges_direct2 s)
qed

theorem synthesis_overlap_counterexample:
  "p_corrected (buildProofreadPayload ''abcdef''
        (Some \<lparr>a_corrections = Some
           [Obj (emptyCorr\<lparr>c_start := Some 0, c_end := Some 4, c_replacement := Some ''X''\<rparr>),
            Obj (emptyCorr\<lparr>c_start := Some 2, c_end := Some 6, c_replacement := Some ''Y''\<rparr>)],
          a_corrected = None, a_text = None\<rparr>))
   \<noteq> spec_applyLeftToRight ''abcdef''
       (p_ranges (buildProofreadPayload ''abcdef''
        (Some \<lparr>a_corrections = Some
           [Obj (emptyCorr\<lparr>c_start := Some 0, c_end := Some 4, c_replacement := Some ''X''\<rparr>),
            Obj (emptyCorr\<lparr>c_start := Some 2, c_end := Some 6, c_replacement := Some ''Y''\<rparr>)],
          a_corrected = None, a_text = None\<rparr>)))"
proof -
  have 1: "synthesize ''abcdef''
      [\<lparr>r_start = 0, r_end = 4, r_replacement = Some ''X''\<rparr>,
       \<lparr>r_start = 2, r_end = 6, r_replacement = Some ''Y''\<rparr>] = ''X''"
    by (simp add: synthesize_def sortDescending_def spliceRange_def)
  have 2: "spec_applyLeftToRight ''abcdef''
      [\<lparr>r_start = 0, r_end = 4, r_replacement = Some ''X''\<rparr>,
       \<lparr>r_start = 2, r_end = 6, r_replacement = Some ''Y''\<rparr>] = ''XY''"
    by (simp add: spec_applyLeftToRight_def)
  show ?thesis
    by (simp add: payload_corrected payload_ranges Let_def normalizeRanges_direct2 1 2)
qed

text \<open>
  Claim C9 (the corrected string falls back to the base text). The corrected string of the
  payload is never empty when the base text is not empty; when the engine supplies no
  corrected or text string (or an empty one) and there is no range to synthesize from, or
  the synthesis yields the empty string, the corrected string is the base text. A single
  correction that deletes the whole text \<open>abc\<close> is answered with \<open>abc\<close>.
\<close>

theorem corrected_falls_back_to_base:
  "(base \<noteq> [] \<longrightarrow> p_corrected (buildProofreadPayload base api) \<noteq> [])
   \<and> (engineCorrected api = []
        \<and> (normalizeRanges (rawCorrections api) = []
           \<or> synthesize base (normalizeRanges (rawCorrections api)) = [])
      \<longrightarrow> p_corrected (buildProofreadPayload base api) = base)
   \<and> p_corrected (buildProofreadPayload ''abc''
        (Some \<lparr>a_corrections = Some
           [Obj (emptyCorr\<lparr>c_start := Some 0, c_end := Some 3, c_replacement := Some []\<rparr>)],
          a_corrected = None, a_text = None\<rparr>))
     = ''abc''"
proof (intro conjI impI)
  show "p_corrected (buildProofreadPayload base api) \<noteq> []" if "base \<noteq> []"
    using that by (simp add: payload_corrected Let_def)
  show "p_corrected (buildProofreadPayload base api) = base"
    if "engineCorrected api = []
        \<and> (normalizeRanges (rawCorrections api) = []
           \<or> synthesize base (normalizeRanges (rawCorrections api)) = [])"
    using that by (auto simp: payload_corrected Let_def)
  show "p_corrected (buildProofreadPayload ''abc''
        (Some \<lparr>a_corrections = Some
           [Obj (emptyCorr\<lparr>c_start := Some 0, c_end := Some 3, c_replacement := Some []\<rparr>)],
          a_corrected = None, a_text = None\<rparr>))
     = ''abc''"
    by (simp add: payload_corrected Let_def normalizeRanges_direct synthesize_single
        spliceRange_def)
qed

theorem corrected_falls_back_to_base_witness:
  "p_corrected (buildProofreadPayload ''abc''
        (Some \<lparr>a_corrections = Some
           [Obj (emptyCorr\<lparr>c_start := Some 0, c_end := Some 3, c_replacement := Some []\<rparr>)],
          a_corrected = Some [], a_text = None\<rparr>))
     = ''abc''
   \<and> p_corrected (buildProofreadPayload ''abc'' None) \<noteq> []"
proof -
  let ?api = "Some \<lparr>a_corrections = Some
           [Obj (emptyCorr\<lparr>c_start := Some 0, c_end := Some 3, c_replacement := Some []\<rparr>)],
          a_corrected = Some [], a_text = None\<rparr>"
  have h: "engineCorrected ?api = []
        \<and> (normalizeRanges (rawCorrections ?api) = []
           \<or> synthesize ''abc'' (normalizeRanges (rawCorrections ?api)) = [])"
    by (simp add: engineCorrected_def normalizeRanges_direct synthesize_single spliceRange_def)
  have n: "''abc'' \<noteq> []" by simp
  from corrected_falls_back_to_base [of "''abc''" ?api] h
  have 1: "p_corrected (buildProofreadPayload ''abc'' ?api) = ''abc''" by blast
  from corrected_falls_back_to_base [of "''abc''" None] n
  have 2: "p_corrected (buildProofreadPayload ''abc'' None) \<noteq> []" by blast
  from 1 2 show ?thesis by simp
qed

section \<open>Properties of the model registry\<close>

lemma filter_at_most_one:
  assumes "distinct (map fst ts)" "\<forall>t\<in>set ts. P t \<longrightarrow> fst t = p"
  shows "length (filter P ts) \<le> 1"
  using assms
proof (induction ts)
  case Nil
  show ?case by simp
next
  case (Cons t ts)
  show ?case
  proof (cases "P t")
    case False
    then show ?thesis using Cons by simp
  next
    case True
    then have "fst t = p" using Cons.prems(2) by simp
    have "\<not> P u" if "u \<in> set ts" for u
    proof
      assume "P u"
      then have "fst u = fst t" using Cons.prems(2) that \<open>fst t = p\<close> by simp
      moreover have "fst t \<notin> fst ` set ts" using Cons.prems(1) by simp
      ultimately show False using that by (metis imageI)
    qed
    then have "\<forall>u\<in>set ts. \<not> P u" by blast
    then have "filter P ts = []" by (simp add: filter_empty_conv)
    then show ?thesis using True by simp
  qed
qed

lemma distinct_fst_unique:
  assumes "distinct (map fst ts)" "(p, v) \<in> set ts" "(p, w) \<in> set ts"
  shows "v = w"
  using assms by (induction ts) (auto simp: image_iff)

lemma inFlight_at_most_one:
  assumes "regInv reg"
  shows "length (inFlight k reg) \<le> 1"
proof (cases "creating reg k")
  case None
  then have "\<forall>t\<in>set (tasks reg). fst (snd t) \<noteq> k"
    using assms by (auto simp: regInv_def)
  then have "filter (\<lambda>t. fst (snd t) = k) (tasks reg) = []" by (simp add: filter_empty_conv)
  then show ?thesis by (simp add: inFlight_def)
next
  case (Some p)
  have b: "\<forall>t\<in>set (tasks reg). creating reg (fst (snd t)) = Some (fst t)"
    using assms by (simp add: regInv_def)
  have "fst t = p" if "t \<in> set (tasks reg)" "fst (snd t) = k" for t
    using b that Some by force
  then have "\<forall>t\<in>set (tasks reg). fst (snd t) = k \<longrightarrow> fst t = p" by blast
  moreover have "distinct (map fst (tasks reg))" using assms by (simp add: regInv_def)
  ultimately have "length (filter (\<lambda>t. fst (snd t) = k) (tasks reg)) \<le> 1"
    by (rule filter_at_most_one [where p = p, rotated])
  then show ?thesis by (simp add: inFlight_def)
qed

lemma running_subset_inFlight:
  "length (runningCreates k reg) \<le> length (inFlight k reg)"
proof -
  have "filter (\<lambda>t. snd t = (k, Instantiating)) (tasks reg)
        = filter (\<lambda>t. snd (snd t) = Instantiating) (filter (\<lambda>t. fst (snd t) = k) (tasks reg))"
    by (induction "tasks reg") (auto simp: prod_eq_iff)
  then have "length (runningCreates k reg)
        = length (filter (\<lambda>t. snd (snd t) = Instantiating) (filter (\<lambda>t. fst (snd t) = k) (tasks reg)))"
    by (simp add: runningCreates_def)
  also have "\<dots> \<le> length (filter (\<lambda>t. fst (snd t) = k) (tasks reg))"
    by (rule length_filter_le)
  finally show ?thesis by (simp add: inFlight_def)
qed

lemma inFlight_marker:
  assumes "regInv reg" "creating reg k = Some p"
  shows "inFlight k reg = [p]"
proof -
  from assms have "\<exists>ph. (p, k, ph) \<in> set (tasks reg)" unfolding regInv_def by blast
  then obtain ph where m: "(p, k, ph) \<in> set (tasks reg)" by blast
  then have "p \<in> set (inFlight k reg)" by (force simp: inFlight_def)
  moreover have "length (inFlight k reg) \<le> 1" by (rule inFlight_at_most_one [OF assms(1)])
  ultimately show ?thesis
    by (cases "inFlight k reg") (auto simp: length_Suc_conv)
qed

lemma inFlight_no_marker:
  assumes "regInv reg" "creating reg k = None"
  shows "inFlight k reg = []"
proof -
  have "\<forall>t\<in>set (tasks reg). fst (snd t) \<noteq> k"
    using assms by (auto simp: regInv_def)
  then show ?thesis by (simp add: inFlight_def filter_empty_conv)
qed

lemma regInv_init: "regInv initRegistry"
  by (simp add: regInv_def initRegistry_def)

lemma getEngine_cached:
  "cached reg k = Some inst \<Longrightarrow> getEngine k reg = (Immediate inst, reg)"
  by (simp add: getEngine_def)

lemma getEngine_creating:
  "cached reg k = None \<Longrightarrow> creating reg k = Some p \<Longrightarrow> getEngine k reg = (Awaits p, reg)"
  by (simp add: getEngine_def)

lemma getEngine_start:
  "cached reg k = None \<Longrightarrow> creating reg k = None \<Longrightarrow>
     getEngine k reg =
       (Awaits (nextPromise reg),
        reg\<lparr>creating := (creating reg)(k := Some (nextPromise reg)),
            tasks := tasks reg @ [(nextPromise reg, k, Probing)],
            nextPromise := nextPromise reg + 1\<rparr>)"
  by (simp add: getEngine_def Let_def)

lemma regInv_get:
  assumes "regInv reg"
  shows "regInv (snd (getEngine k reg))"
proof (cases "cached reg k")
  case (Some inst)
  then show ?thesis using assms by (simp add: getEngine_cached)
next
  case None
  show ?thesis
  proof (cases "creating reg k")
    case (Some p)
    then show ?thesis using assms None by (simp add: getEngine_creating)
  next
    case cn: None
    have d: "distinct (map fst (tasks reg))"
      and b: "\<forall>t\<in>set (tasks reg). fst t < nextPromise reg \<and> creating reg (fst (snd t)) = Some (fst t)"
      and c: "\<forall>k p. creating reg k = Some p \<longrightarrow> (\<exists>ph. (p, k, ph) \<in> set (tasks reg))"
      using assms by (simp_all add: regInv_def)
    have fresh: "nextPromise reg \<notin> fst ` set (tasks reg)" using b by force
    have other: "\<forall>t\<in>set (tasks reg). fst (snd t) \<noteq> k" using b cn by force
    show ?thesis
      unfolding getEngine_start [OF None cn] regInv_def
      using d b c fresh other by (auto simp: less_Suc_eq)
  qed
qed

lemma map_of_task:
  assumes "map_of (tasks reg) p = Some (k, ph)"
  shows "(p, k, ph) \<in> set (tasks reg)"
  using assms by (rule map_of_SomeD)

lemma regInv_remove:
  assumes "regInv reg" "(p, k, ph) \<in> set (tasks reg)"
    and "tasks reg' = removeTask p (tasks reg)" "creating reg' = (creating reg)(k := None)"
    and "nextPromise reg' = nextPromise reg"
  shows "regInv reg'"
proof -
  have d: "distinct (map fst (tasks reg))"
    and b: "\<forall>t\<in>set (tasks reg). fst t < nextPromise reg \<and> creating reg (fst (snd t)) = Some (fst t)"
    and cc: "\<forall>k p. creating reg k = Some p \<longrightarrow> (\<exists>ph. (p, k, ph) \<in> set (tasks reg))"
    using assms(1) by (simp_all add: regInv_def)
  have mk: "creating reg k = Some p" using b assms(2) by force
  have 1: "distinct (map fst (removeTask p (tasks reg)))"
    using d by (simp add: removeTask_def distinct_map_filter)
  have 2: "fst t < nextPromise reg \<and> ((creating reg)(k := None)) (fst (snd t)) = Some (fst t)"
    if "t \<in> set (removeTask p (tasks reg))" for t
  proof -
    from that have t: "t \<in> set (tasks reg)" "fst t \<noteq> p" by (simp_all add: removeTask_def)
    then have "creating reg (fst (snd t)) = Some (fst t)" using b by blast
    with mk t have "fst (snd t) \<noteq> k" by auto
    then show ?thesis using b t by simp
  qed
  have 3: "\<exists>ph'. (p', k', ph') \<in> set (removeTask p (tasks reg))"
    if "((creating reg)(k := None)) k' = Some p'" for k' p'
  proof -
    from that have k: "k' \<noteq> k" and m: "creating reg k' = Some p'" by (auto split: if_splits)
    then obtain ph' where i: "(p', k', ph') \<in> set (tasks reg)" using cc by blast
    have "p' \<noteq> p"
    proof
      assume "p' = p"
      with i assms(2) d have "(k', ph') = (k, ph)" by (auto dest: distinct_fst_unique)
      with k show False by simp
    qed
    with i show ?thesis by (auto simp: removeTask_def)
  qed
  show ?thesis
    unfolding regInv_def assms(3-5) using 1 2 3 by simp
qed

lemma regInv_availability:
  assumes "regInv reg"
  shows "regInv (availabilitySettled p a reg)"
proof (cases "\<exists>k. map_of (tasks reg) p = Some (k, Probing)")
  case False
  then have "availabilitySettled p a reg = reg"
    by (auto simp: availabilitySettled_def split: option.splits Phase.splits)
  with assms show ?thesis by simp
next
  case True
  then obtain k where m: "map_of (tasks reg) p = Some (k, Probing)" by blast
  then have i: "(p, k, Probing) \<in> set (tasks reg)" by (rule map_of_task)
  show ?thesis
  proof (cases "a = Unavailable")
    case True
    show ?thesis
      by (rule regInv_remove [OF assms i]) (simp_all add: availabilitySettled_def m True)
  next
    case False
    define ts where "ts = map (\<lambda>t. if fst t = p then (p, k, Instantiating) else t) (tasks reg)"
    have e: "availabilitySettled p a reg = reg\<lparr>tasks := ts\<rparr>"
      using m False by (simp add: availabilitySettled_def ts_def)
    have f: "map fst ts = map fst (tasks reg)" unfolding ts_def by (induction "tasks reg") auto
    have d: "distinct (map fst (tasks reg))"
      and b: "\<forall>t\<in>set (tasks reg). fst t < nextPromise reg \<and> creating reg (fst (snd t)) = Some (fst t)"
      and cc: "\<forall>k p. creating reg k = Some p \<longrightarrow> (\<exists>ph. (p, k, ph) \<in> set (tasks reg))"
      using assms by (simp_all add: regInv_def)
    have 1: "distinct (map fst ts)" using d by (simp only: f)
    have 2: "fst t < nextPromise reg \<and> creating reg (fst (snd t)) = Some (fst t)"
      if "t \<in> set ts" for t
      using that b i unfolding ts_def by (force split: if_splits)
    have 3: "\<exists>ph'. (p', k', ph') \<in> set ts" if "creating reg k' = Some p'" for k' p'
    proof -
      from that obtain ph' where j: "(p', k', ph') \<in> set (tasks reg)" using cc by blast
      show ?thesis
      proof (cases "p' = p")
        case True
        with j i d have "(k', ph') = (k, Probing)" by (auto dest: distinct_fst_unique)
        then have "k' = k" by simp
        with True j show ?thesis unfolding ts_def by (force simp: image_iff)
      next
        case False
        with j show ?thesis unfolding ts_def by (force simp: image_iff)
      qed
    qed
    show ?thesis
      unfolding e regInv_def using 1 2 3 by simp
  qed
qed

lemma regInv_fulfilled:
  assumes "regInv reg"
  shows "regInv (createFulfilled p inst reg)"
proof (cases "\<exists>k. map_of (tasks reg) p = Some (k, Instantiating)")
  case False
  then have "createFulfilled p inst reg = reg"
    by (auto simp: createFulfilled_def split: option.splits Phase.splits)
  with assms show ?thesis by simp
next
  case True
  then obtain k where m: "map_of (tasks reg) p = Some (k, Instantiating)" by blast
  then have i: "(p, k, Instantiating) \<in> set (tasks reg)" by (rule map_of_task)
  show ?thesis
    by (rule regInv_remove [OF assms i]) (simp_all add: createFulfilled_def m)
qed

lemma regInv_rejected:
  assumes "regInv reg"
  shows "regInv (createRejected p e reg)"
proof (cases "\<exists>k. map_of (tasks reg) p = Some (k, Instantiating)")
  case False
  then have "createRejected p e reg = reg"
    by (auto simp: createRejected_def split: option.splits Phase.splits)
  with assms show ?thesis by simp
next
  case True
  then obtain k where m: "map_of (tasks reg) p = Some (k, Instantiating)" by blast
  then have i: "(p, k, Instantiating) \<in> set (tasks reg)" by (rule map_of_task)
  show ?thesis
    by (rule regInv_remove [OF assms i]) (simp_all add: createRejected_def m)
qed

lemma regInv_disposeNonProofreader:
  assumes "regInv reg"
  shows "regInv (disposeNonProofreader reg)"
  using assms by (simp add: regInv_def disposeNonProofreader_def)

lemma regInv_dispose_at_rest:
  assumes "tasks reg = []"
  shows "regInv (disposeModels reg)"
  using assms by (simp add: regInv_def disposeModels_def)

lemma regInv_step:
  assumes "regInv reg" "if isDisposeModels ev then tasks reg = [] else True"
  shows "regInv (regStep reg ev)"
  using assms
  by (cases ev)
     (simp_all add: regInv_get regInv_availability regInv_fulfilled regInv_rejected
        regInv_disposeNonProofreader regInv_dispose_at_rest)

lemma regInv_run:
  assumes "regInv reg" "disposeAtRest reg evs"
  shows "regInv (regRun reg evs)"
  using assms unfolding regRun_def
  by (induction evs arbitrary: reg) (simp_all add: regInv_step)

text \<open>
  What the creation locks achieve. In every state the registry reaches by getter calls,
  settling availability probes, settling \<open>create()\<close> calls, \<open>disposeNonProofreader\<close>, and
  \<open>disposeModels\<close> run only while no creation is in flight, and for each engine kind: at
  most one creation is in flight, so at most one \<open>create()\<close> call runs at a time; if an
  instance is cached the getter returns it at once and changes nothing; if the marker of a
  creation is set the getter returns that same promise and starts nothing; otherwise it
  starts the one creation and sets the marker. When the \<open>create()\<close> call of a creation
  returns, the instance is cached, the marker is cleared and the promise is fulfilled with
  the instance; when it throws, the marker is cleared, the promise is rejected with that
  error for every caller that awaits it, the cache is unchanged, and the next getter call
  starts a new creation.
\<close>

lemma one_creation_while_dispose_at_rest:
  "disposeAtRest initRegistry evs \<longrightarrow>
     (let reg = regRun initRegistry evs in
        length (inFlight k reg) \<le> 1 \<and> length (runningCreates k reg) \<le> 1
        \<and> (\<forall>inst. cached reg k = Some inst \<longrightarrow> getEngine k reg = (Immediate inst, reg))
        \<and> (\<forall>p. cached reg k = None \<and> creating reg k = Some p \<longrightarrow>
              getEngine k reg = (Awaits p, reg) \<and> inFlight k reg = [p])
        \<and> (cached reg k = None \<and> creating reg k = None \<longrightarrow>
              inFlight k reg = []
              \<and> fst (getEngine k reg) = Awaits (nextPromise reg)
              \<and> creating (snd (getEngine k reg)) k = Some (nextPromise reg)
              \<and> inFlight k (snd (getEngine k reg)) = [nextPromise reg])
        \<and> (\<forall>p inst. map_of (tasks reg) p = Some (k, Instantiating) \<longrightarrow>
              cached (createFulfilled p inst reg) k = Some inst
              \<and> creating (createFulfilled p inst reg) k = None
              \<and> settled (createFulfilled p inst reg) = settled reg @ [(p, Inr inst)]
              \<and> inFlight k (createFulfilled p inst reg) = [])
        \<and> (\<forall>p e. map_of (tasks reg) p = Some (k, Instantiating) \<longrightarrow>
              cached (createRejected p e reg) = cached reg
              \<and> creating (createRejected p e reg) k = None
              \<and> settled (createRejected p e reg) = settled reg @ [(p, Inl e)]
              \<and> inFlight k (createRejected p e reg) = []
              \<and> (cached reg k = None \<longrightarrow>
                    fst (getEngine k (createRejected p e reg)) = Awaits (nextPromise reg)
                    \<and> inFlight k (snd (getEngine k (createRejected p e reg)))
                      = [nextPromise reg])))"
proof
  assume nd: "disposeAtRest initRegistry evs"
  define reg where "reg = regRun initRegistry evs"
  have inv: "regInv reg"
    unfolding reg_def by (rule regInv_run [OF regInv_init nd])
  have 1: "length (inFlight k reg) \<le> 1" by (rule inFlight_at_most_one [OF inv])
  have 2: "length (runningCreates k reg) \<le> 1"
    using running_subset_inFlight [of k reg] 1 by simp
  have 3: "getEngine k reg = (Immediate inst, reg)" if "cached reg k = Some inst" for inst
    using that by (rule getEngine_cached)
  have 4: "getEngine k reg = (Awaits p, reg) \<and> inFlight k reg = [p]"
    if "cached reg k = None \<and> creating reg k = Some p" for p
    using that by (simp add: getEngine_creating inFlight_marker [OF inv])
  have start: "fst (getEngine k r) = Awaits (nextPromise r)
              \<and> creating (snd (getEngine k r)) k = Some (nextPromise r)
              \<and> inFlight k (snd (getEngine k r)) = [nextPromise r]"
    if "regInv r" "cached r k = None" "creating r k = None" for r
  proof -
    have c: "creating (snd (getEngine k r)) k = Some (nextPromise r)"
      by (simp add: getEngine_start [OF that(2,3)])
    from inFlight_marker [OF regInv_get [OF that(1)] c]
    show ?thesis using c by (simp add: getEngine_start [OF that(2,3)])
  qed
  have 5: "inFlight k reg = []
              \<and> fst (getEngine k reg) = Awaits (nextPromise reg)
              \<and> creating (snd (getEngine k reg)) k = Some (nextPromise reg)
              \<and> inFlight k (snd (getEngine k reg)) = [nextPromise reg]"
    if "cached reg k = None \<and> creating reg k = None"
    using that start [OF inv] inFlight_no_marker [OF inv] by simp
  have 6: "cached (createFulfilled p inst reg) k = Some inst
              \<and> creating (createFulfilled p inst reg) k = None
              \<and> settled (createFulfilled p inst reg) = settled reg @ [(p, Inr inst)]
              \<and> inFlight k (createFulfilled p inst reg) = []"
    if "map_of (tasks reg) p = Some (k, Instantiating)" for p inst
  proof -
    have c: "creating (createFulfilled p inst reg) k = None"
      using that by (simp add: createFulfilled_def)
    from inFlight_no_marker [OF regInv_fulfilled [OF inv] c]
    show ?thesis using that by (simp add: createFulfilled_def)
  qed
  have 7: "cached (createRejected p e reg) = cached reg
              \<and> creating (createRejected p e reg) k = None
              \<and> settled (createRejected p e reg) = settled reg @ [(p, Inl e)]
              \<and> inFlight k (createRejected p e reg) = []
              \<and> (cached reg k = None \<longrightarrow>
                    fst (getEngine k (createRejected p e reg)) = Awaits (nextPromise reg)
                    \<and> inFlight k (snd (getEngine k (createRejected p e reg)))
                      = [nextPromise reg])"
    if "map_of (tasks reg) p = Some (k, Instantiating)" for p e
  proof -
    have c: "creating (createRejected p e reg) k = None"
      and ca: "cached (createRejected p e reg) = cached reg"
      and n: "nextPromise (createRejected p e reg) = nextPromise reg"
      and s: "settled (createRejected p e reg) = settled reg @ [(p, Inl e)]"
      using that by (simp_all add: createRejected_def)
    note i = regInv_rejected [OF inv, of p e]
    from start [OF i _ c] ca n
    have "cached reg k = None \<longrightarrow>
                    fst (getEngine k (createRejected p e reg)) = Awaits (nextPromise reg)
                    \<and> inFlight k (snd (getEngine k (createRejected p e reg)))
                      = [nextPromise reg]"
      by simp
    with inFlight_no_marker [OF i c] c ca s show ?thesis by simp
  qed
  from 1 2 3 4 5 6 7
  show "let reg = regRun initRegistry evs in
        length (inFlight k reg) \<le> 1 \<and> length (runningCreates k reg) \<le> 1
        \<and> (\<forall>inst. cached reg k = Some inst \<longrightarrow> getEngine k reg = (Immediate inst, reg))
        \<and> (\<forall>p. cached reg k = None \<and> creating reg k = Some p \<longrightarrow>
              getEngine k reg = (Awaits p, reg) \<and> inFlight k reg = [p])
        \<and> (cached reg k = None \<and> creating reg k = None \<longrightarrow>
              inFlight k reg = []
              \<and> fst (getEngine k reg) = Awaits (nextPromise reg)
              \<and> creating (snd (getEngine k reg)) k = Some (nextPromise reg)
              \<and> inFlight k (snd (getEngine k reg)) = [nextPromise reg])
        \<and> (\<forall>p inst. map_of (tasks reg) p = Some (k, Instantiating) \<longrightarrow>
              cached (createFulfilled p inst reg) k = Some inst
              \<and> creating (createFulfilled p inst reg) k = None
              \<and> settled (createFulfilled p inst reg) = settled reg @ [(p, Inr inst)]
              \<and> inFlight k (createFulfilled p inst reg) = [])
        \<and> (\<forall>p e. map_of (tasks reg) p = Some (k, Instantiating) \<longrightarrow>
              cached (createRejected p e reg) = cached reg
              \<and> creating (createRejected p e reg) k = None
              \<and> settled (createRejected p e reg) = settled reg @ [(p, Inl e)]
              \<and> inFlight k (createRejected p e reg) = []
              \<and> (cached reg k = None \<longrightarrow>
                    fst (getEngine k (createRejected p e reg)) = Awaits (nextPromise reg)
                    \<and> inFlight k (snd (getEngine k (createRejected p e reg)))
                      = [nextPromise reg]))"
    unfolding Let_def reg_def [symmetric] by blast
qed

lemma example_run:
  "regRun initRegistry
     [DisposeModels, Get Writer, Get Writer, AvailabilitySettled 0 Downloadable, Get Writer]
   = \<lparr>cached = (\<lambda>k. None), creating = (\<lambda>k. None)(Writer := Some 0),
      tasks = [(0, Writer, Instantiating)], settled = [], nextPromise = 1, released = []\<rparr>"
  by (simp add: regRun_def getEngine_def initRegistry_def availabilitySettled_def Let_def
      disposeModels_def safeDispose_def)

lemma one_creation_example:
  "fst (getEngine Writer
     (regRun initRegistry
        [DisposeModels, Get Writer, Get Writer, AvailabilitySettled 0 Downloadable, Get Writer]))
   = Awaits 0
   \<and> inFlight Writer
     (regRun initRegistry
        [DisposeModels, Get Writer, Get Writer, AvailabilitySettled 0 Downloadable, Get Writer])
   = [0]
   \<and> cached (createFulfilled 0 7
     (regRun initRegistry
        [DisposeModels, Get Writer, Get Writer, AvailabilitySettled 0 Downloadable, Get Writer]))
     Writer = Some 7
   \<and> fst (getEngine Writer (createRejected 0 (ErrorObj ''NotSupportedError'' ''no model'')
     (regRun initRegistry
        [DisposeModels, Get Writer, Get Writer, AvailabilitySettled 0 Downloadable, Get Writer])))
   = Awaits 1"
proof -
  let ?evs = "[DisposeModels, Get Writer, Get Writer, AvailabilitySettled 0 Downloadable, Get Writer]"
  let ?reg = "regRun initRegistry ?evs"
  have nd: "disposeAtRest initRegistry ?evs" by (simp add: initRegistry_def)
  have a: "cached ?reg Writer = None \<and> creating ?reg Writer = Some 0"
    by (simp add: example_run)
  have b: "map_of (tasks ?reg) 0 = Some (Writer, Instantiating)"
    by (simp add: example_run)
  have n: "nextPromise ?reg = 1" by (simp add: example_run)
  note T = one_creation_while_dispose_at_rest [of ?evs Writer]
  have 1: "getEngine Writer ?reg = (Awaits 0, ?reg) \<and> inFlight Writer ?reg = [0]"
    using T nd a unfolding Let_def by blast
  have 2: "cached (createFulfilled 0 7 ?reg) Writer = Some 7"
    using T nd b unfolding Let_def by blast
  have "fst (getEngine Writer (createRejected 0 (ErrorObj ''NotSupportedError'' ''no model'') ?reg))
      = Awaits (nextPromise ?reg)"
    using T nd a b unfolding Let_def by blast
  with n have 3: "fst (getEngine Writer (createRejected 0 (ErrorObj ''NotSupportedError'' ''no model'') ?reg))
      = Awaits 1" by simp
  from 1 2 3 show ?thesis by simp
qed

lemma duplicate_run:
  "regRun initRegistry
     [Get Writer, DisposeModels, Get Writer, AvailabilitySettled 0 Available,
      AvailabilitySettled 1 Available]
   = \<lparr>cached = (\<lambda>k. None), creating = (\<lambda>k. None)(Writer := Some 1),
      tasks = [(0, Writer, Instantiating), (1, Writer, Instantiating)], settled = [],
      nextPromise = 2, released = []\<rparr>"
  by (simp add: regRun_def getEngine_def initRegistry_def availabilitySettled_def Let_def
      disposeModels_def safeDispose_def)

text \<open>
  Claim C2 (at-most-one-creation invariant in the model registry) fails on the code when
  \<open>disposeModels\<close> runs while a creation is in flight: it clears the marker and leaves the
  creation running. The writer is requested (creation 0 starts), the models are disposed,
  and the writer is requested again: the second caller gets another promise, creation 1;
  once both availability probes have answered, two \<open>create()\<close> calls of the writer run at
  the same time. When the first returns instance 10 it is cached and the marker of
  creation 1 is cleared; when the second returns instance 11 it replaces instance 10 in
  the cache, and instance 10, handed to the first caller, is never released.
\<close>

theorem dispose_during_creation_duplicates:
  "fst (getEngine Writer initRegistry) = Awaits 0
   \<and> fst (getEngine Writer (regRun initRegistry [Get Writer, DisposeModels])) = Awaits 1
   \<and> runningCreates Writer
        (regRun initRegistry
           [Get Writer, DisposeModels, Get Writer, AvailabilitySettled 0 Available,
            AvailabilitySettled 1 Available])
      = [0, 1]
   \<and> regRun initRegistry
        [Get Writer, DisposeModels, Get Writer, AvailabilitySettled 0 Available,
         AvailabilitySettled 1 Available, CreateFulfilled 0 10]
      = \<lparr>cached = (\<lambda>k. None)(Writer := Some 10), creating = (\<lambda>k. None),
         tasks = [(1, Writer, Instantiating)], settled = [(0, Inr 10)],
         nextPromise = 2, released = []\<rparr>
   \<and> regRun initRegistry
        [Get Writer, DisposeModels, Get Writer, AvailabilitySettled 0 Available,
         AvailabilitySettled 1 Available, CreateFulfilled 0 10, CreateFulfilled 1 11]
      = \<lparr>cached = (\<lambda>k. None)(Writer := Some 11), creating = (\<lambda>k. None),
         tasks = [], settled = [(0, Inr 10), (1, Inr 11)],
         nextPromise = 2, released = []\<rparr>"
proof -
  let ?evs = "[Get Writer, DisposeModels, Get Writer, AvailabilitySettled 0 Available,
      AvailabilitySettled 1 Available]"
  have 1: "fst (getEngine Writer initRegistry) = Awaits 0"
    by (simp add: getEngine_def initRegistry_def Let_def)
  have 2: "fst (getEngine Writer (regRun initRegistry [Get Writer, DisposeModels])) = Awaits 1"
    by (simp add: regRun_def getEngine_def initRegistry_def Let_def disposeModels_def
        safeDispose_def)
  have 3: "runningCreates Writer (regRun initRegistry ?evs) = [0, 1]"
    unfolding runningCreates_def duplicate_run by simp
  have s: "regRun initRegistry (?evs @ more) = regRun (regRun initRegistry ?evs) more" for more
    by (simp only: regRun_def foldl_append)
  have 4: "regRun initRegistry (?evs @ [CreateFulfilled 0 10])
      = \<lparr>cached = (\<lambda>k. None)(Writer := Some 10), creating = (\<lambda>k. None),
         tasks = [(1, Writer, Instantiating)], settled = [(0, Inr 10)],
         nextPromise = 2, released = []\<rparr>"
    unfolding s duplicate_run
    by (simp add: regRun_def createFulfilled_def removeTask_def fun_eq_iff)
  have 5: "regRun initRegistry (?evs @ [CreateFulfilled 0 10, CreateFulfilled 1 11])
      = \<lparr>cached = (\<lambda>k. None)(Writer := Some 11), creating = (\<lambda>k. None),
         tasks = [], settled = [(0, Inr 10), (1, Inr 11)],
         nextPromise = 2, released = []\<rparr>"
    unfolding s duplicate_run
    by (simp add: regRun_def createFulfilled_def removeTask_def fun_eq_iff)
  from 1 2 3 4 5 show ?thesis by simp
qed

section \<open>Properties of the request handler\<close>

lemma toLowerCase_Nil_iff [simp]: "toLowerCase t = [] \<longleftrightarrow> t = []"
  by (simp add: toLowerCase_def)

lemma jsIncludes_Nil_hay: "jsIncludes [] needle \<longleftrightarrow> needle = []"
  by simp

lemma errText_message: "errMessage e \<noteq> [] \<Longrightarrow> errText e = errMessage e"
  by (simp add: errText_def)

lemma spec_class_is_cancellation:
  assumes "spec_cancellationClass e"
  shows "isCancellation e"
proof -
  from assms consider "toLowerCase (errName e) = ''aborterror''"
    | "jsIncludes (toLowerCase (errMessage e)) ''cancel''"
    by (auto simp: spec_cancellationClass_def)
  then show ?thesis
  proof cases
    case 1
    then show ?thesis by (simp add: isCancellation_def Let_def)
  next
    case 2
    then have "errMessage e \<noteq> []" by (auto simp: toLowerCase_def)
    with 2 show ?thesis by (simp add: isCancellation_def Let_def errText_message)
  qed
qed

lemma handle_proofread:
  "fst (handle env now ''proofread'' ps st) =
     awaitThen (env_getProofreader env)
       (\<lambda>proofreader. proofreadOutcome (strOrEmpty (param q_text ps))
           (env_proofread env proofreader (strOrEmpty (param q_text ps))))"
  by (simp add: handle_def Let_def)

text \<open>
  Claim C5 (cancellation passthrough), as the code has it. When the engine's proofread call
  fails with an error \<open>e\<close>, the proofread handler returns normally, with the payload
  \<open>{corrected: base, corrections: [], ranges: [], cancelled: true}\<close> for the input text
  \<open>base\<close>, exactly when the lower-cased name of \<open>e\<close> is \<open>aborterror\<close> or the lower-cased
  text of \<open>e\<close> contains \<open>cancel\<close>, where the text is the message or, when the message is
  empty, the string form of the error; every other failure propagates as the same error.
  Every error of the class the specification names (name \<open>AbortError\<close>, or a marker in the
  message) is answered with the cancelled payload.
\<close>

theorem proofread_cancellation_passthrough:
  "env_getProofreader env = Fulfilled i
     \<and> env_proofread env i (strOrEmpty (param q_text ps)) = Rejected e
   \<longrightarrow> fst (handle env now ''proofread'' ps st)
         = (if isCancellation e
            then Fulfilled (RPayload \<lparr>p_corrected = strOrEmpty (param q_text ps), p_corrections = [],
                                      p_ranges = [], p_cancelled = True\<rparr>)
            else Rejected e)
       \<and> (isCancellation e \<longleftrightarrow>
            toLowerCase (errName e) = ''aborterror''
            \<or> jsIncludes (toLowerCase (if errMessage e \<noteq> [] then errMessage e else errToString e))
                 ''cancel'')
       \<and> (spec_cancellationClass e \<longrightarrow> isCancellation e)"
proof (intro impI conjI)
  assume a: "env_getProofreader env = Fulfilled i
     \<and> env_proofread env i (strOrEmpty (param q_text ps)) = Rejected e"
  then show "fst (handle env now ''proofread'' ps st)
         = (if isCancellation e
            then Fulfilled (RPayload \<lparr>p_corrected = strOrEmpty (param q_text ps), p_corrections = [],
                                      p_ranges = [], p_cancelled = True\<rparr>)
            else Rejected e)"
    by (simp add: handle_proofread proofreadOutcome_def cancelledPayload_def)
  show "isCancellation e \<longleftrightarrow>
            toLowerCase (errName e) = ''aborterror''
            \<or> jsIncludes (toLowerCase (if errMessage e \<noteq> [] then errMessage e else errToString e))
                 ''cancel''"
    by (simp add: isCancellation_def Let_def errText_def)
  show "isCancellation e" if "spec_cancellationClass e"
    using that by (rule spec_class_is_cancellation)
qed

theorem proofread_cancellation_passthrough_witness:
  "fst (handle (proofreadThrows (ErrorObj ''AbortError'' ''The operation was aborted.'')) 5
          ''proofread'' (Some (noParams\<lparr>q_text := Some ''Teh cat''\<rparr>)) freshInpage)
   = Fulfilled (RPayload \<lparr>p_corrected = ''Teh cat'', p_corrections = [], p_ranges = [],
                          p_cancelled = True\<rparr>)
   \<and> fst (handle (proofreadThrows (ErrorObj ''TypeError'' ''bad input'')) 5
          ''proofread'' (Some (noParams\<lparr>q_text := Some ''Teh cat''\<rparr>)) freshInpage)
   = Rejected (ErrorObj ''TypeError'' ''bad input'')"
proof -
  let ?ps = "Some (noParams\<lparr>q_text := Some ''Teh cat''\<rparr>)"
  let ?a = "ErrorObj ''AbortError'' ''The operation was aborted.''"
  let ?b = "ErrorObj ''TypeError'' ''bad input''"
  have t: "strOrEmpty (param q_text ?ps) = ''Teh cat''"
    by (simp add: strOrEmpty_def param_def noParams_def)
  have ha: "env_getProofreader (proofreadThrows ?a) = Fulfilled 2
     \<and> env_proofread (proofreadThrows ?a) 2 (strOrEmpty (param q_text ?ps)) = Rejected ?a"
    by (simp add: proofreadThrows_def)
  have hb: "env_getProofreader (proofreadThrows ?b) = Fulfilled 2
     \<and> env_proofread (proofreadThrows ?b) 2 (strOrEmpty (param q_text ?ps)) = Rejected ?b"
    by (simp add: proofreadThrows_def)
  have ca: "isCancellation ?a"
    by (simp add: isCancellation_def Let_def toLowerCase_def lowerChar_def)
  have cb: "\<not> isCancellation ?b"
    by (simp add: isCancellation_def Let_def errText_def toLowerCase_def lowerChar_def)
  from proofread_cancellation_passthrough [of "proofreadThrows ?a" 2 ?ps ?a 5 freshInpage] ha ca
  have 1: "fst (handle (proofreadThrows ?a) 5 ''proofread'' ?ps freshInpage)
     = Fulfilled (RPayload \<lparr>p_corrected = ''Teh cat'', p_corrections = [], p_ranges = [],
                          p_cancelled = True\<rparr>)"
    by (simp add: t)
  from proofread_cancellation_passthrough [of "proofreadThrows ?b" 2 ?ps ?b 5 freshInpage] hb cb
  have 2: "fst (handle (proofreadThrows ?b) 5 ''proofread'' ?ps freshInpage) = Rejected ?b"
    by simp
  from 1 2 show ?thesis by simp
qed

theorem cancellation_by_name_counterexample:
  "\<not> spec_cancellationClass (ErrorObj ''CancelledError'' [])
   \<and> fst (handle (proofreadThrows (ErrorObj ''CancelledError'' [])) 5
          ''proofread'' (Some (noParams\<lparr>q_text := Some ''Teh cat''\<rparr>)) freshInpage)
     = Fulfilled (RPayload \<lparr>p_corrected = ''Teh cat'', p_corrections = [], p_ranges = [],
                            p_cancelled = True\<rparr>)"
proof -
  have 1: "\<not> spec_cancellationClass (ErrorObj ''CancelledError'' [])"
    by (simp add: spec_cancellationClass_def toLowerCase_def lowerChar_def)
  have 2: "isCancellation (ErrorObj ''CancelledError'' [])"
    by (simp add: isCancellation_def Let_def errText_def toLowerCase_def lowerChar_def)
  show ?thesis
    using 1 2
    by (simp add: handle_proofread proofreadOutcome_def cancelledPayload_def proofreadThrows_def
        strOrEmpty_def param_def noParams_def)
qed

lemma awaitThen_settles:
  assumes "x \<noteq> Pending" "\<And>v. f v \<noteq> Pending"
  shows "awaitThen x f \<noteq> Pending"
  using assms by (cases x) simp_all

lemma proofreadOutcome_settles: "r \<noteq> Pending \<Longrightarrow> proofreadOutcome base r \<noteq> Pending"
  by (cases r) (simp_all add: proofreadOutcome_def)

lemma handle_settles:
  assumes "envSettles env"
  shows "fst (handle env now method ps st) \<noteq> Pending"
proof -
  have w: "env_warmupSettles env" and gp: "env_getProofreader env \<noteq> Pending"
    and gw: "\<And>t l. env_getWriter env t l \<noteq> Pending"
    and gr: "\<And>t l. env_getRewriter env t l \<noteq> Pending"
    and wr: "\<And>i t. env_write env i t \<noteq> Pending"
    and rw: "\<And>i t c. env_rewrite env i t c \<noteq> Pending"
    and pr: "\<And>i t. env_proofread env i t \<noteq> Pending"
    using assms by (simp_all add: envSettles_def)
  show ?thesis
    unfolding handle_def Let_def
    by (simp add: w awaitThen_settles gp gw gr wr rw pr proofreadOutcome_settles)
qed

lemma listener_posts:
  assumes "m_gx d" "m_direction d = ''cs->inpage''"
  shows "fst (inpageListener env now (Some d) st) =
     (case fst (handle env now (m_method d) (m_params d) st) of
        Fulfilled res \<Rightarrow> [postResponse (m_id d) (Some res) None]
      | Rejected e \<Rightarrow> [postResponse (m_id d) None (Some (errText e))]
      | Pending \<Rightarrow> [])"
  using assms
  by (simp add: inpageListener_def split: prod.splits Settled.splits)

lemma handle_unknown_method:
  assumes "method \<notin> set knownMethods"
  shows "fst (handle env now method ps st) = Rejected (newError (''Unknown method: '' @ method))"
  using assms by (simp add: handle_def knownMethods_def)

lemma handle_unknown_model:
  assumes "toLowerCase (strOrEmpty (param q_model ps)) \<notin> {''proofreader'', ''writer'', ''rewriter''}"
  shows "fst (handle env now ''ensure'' ps st)
         = Rejected (newError (''Unknown model: '' @ toLowerCase (strOrEmpty (param q_model ps))))"
  using assms by (simp add: handle_def Let_def)

lemma errText_newError: "m \<noteq> [] \<Longrightarrow> errText (newError m) = m"
  by (simp add: errText_def newError_def)

text \<open>
  Claim C10 (every request is answered once), as the code has it. For every well-formed
  inbound request (matching envelope, direction \<open>cs->inpage\<close>) the listener posts at most
  one response, and exactly one, carrying the id of the request, when the engine calls
  that the handler awaits settle. For an unrecognized method the response is the error
  \<open>Unknown method: <method>\<close>; for \<open>ensure\<close> with an unrecognized model name it is the error
  \<open>Unknown model: <model>\<close> with the model name in lower case.
\<close>

theorem every_request_answered_once:
  "m_gx d \<and> m_direction d = ''cs->inpage'' \<longrightarrow>
     length (fst (inpageListener env now (Some d) st)) \<le> 1
     \<and> (envSettles env \<longrightarrow>
          (\<exists>r. fst (inpageListener env now (Some d) st) = [r] \<and> s_id r = m_id d
               \<and> s_gx r \<and> s_direction r = ''inpage->cs''))
     \<and> (m_method d \<notin> set knownMethods \<longrightarrow>
          fst (inpageListener env now (Some d) st)
          = [postResponse (m_id d) None (Some (''Unknown method: '' @ m_method d))])
     \<and> (m_method d = ''ensure''
          \<and> toLowerCase (strOrEmpty (param q_model (m_params d)))
              \<notin> {''proofreader'', ''writer'', ''rewriter''} \<longrightarrow>
          fst (inpageListener env now (Some d) st)
          = [postResponse (m_id d) None
               (Some (''Unknown model: '' @ toLowerCase (strOrEmpty (param q_model (m_params d)))))])"
proof (intro impI conjI)
  assume wf: "m_gx d \<and> m_direction d = ''cs->inpage''"
  note lp = listener_posts [of d env now st]
  show "length (fst (inpageListener env now (Some d) st)) \<le> 1"
    using wf by (simp add: lp split: Settled.splits)
  show "\<exists>r. fst (inpageListener env now (Some d) st) = [r] \<and> s_id r = m_id d
               \<and> s_gx r \<and> s_direction r = ''inpage->cs''" if "envSettles env"
    using wf handle_settles [OF that, of now "m_method d" "m_params d" st]
    by (cases "fst (handle env now (m_method d) (m_params d) st)")
       (simp_all add: lp postResponse_def)
  show "fst (inpageListener env now (Some d) st)
          = [postResponse (m_id d) None (Some (''Unknown method: '' @ m_method d))]"
    if "m_method d \<notin> set knownMethods"
    using wf that by (simp add: lp handle_unknown_method errText_newError)
  show "fst (inpageListener env now (Some d) st)
          = [postResponse (m_id d) None
               (Some (''Unknown model: '' @ toLowerCase (strOrEmpty (param q_model (m_params d)))))]"
    if "m_method d = ''ensure''
          \<and> toLowerCase (strOrEmpty (param q_model (m_params d)))
              \<notin> {''proofreader'', ''writer'', ''rewriter''}"
    using wf that by (simp add: lp handle_unknown_model errText_newError)
qed

lemma envSettles_proofreadThrows: "envSettles (proofreadThrows e)"
  by (simp add: envSettles_def proofreadThrows_def)

theorem every_request_answered_once_witness:
  "fst (inpageListener (proofreadThrows (ThrownString ''x'')) 5 (Some (request 7 ''summarize'' noParams))
        freshInpage)
   = [postResponse 7 None (Some ''Unknown method: summarize'')]
   \<and> fst (inpageListener (proofreadThrows (ThrownString ''x'')) 5
        (Some (request 8 ''ensure'' (noParams\<lparr>q_model := Some ''GPT''\<rparr>))) freshInpage)
   = [postResponse 8 None (Some ''Unknown model: gpt'')]
   \<and> length (fst (inpageListener (proofreadThrows (ThrownString ''x'')) 5
        (Some (request 9 ''proofread'' noParams)) freshInpage)) = 1"
proof -
  let ?env = "proofreadThrows (ThrownString ''x'')"
  have wf: "m_gx (request i m ps) \<and> m_direction (request i m ps) = ''cs->inpage''" for i m ps
    by (simp add: request_def)
  have 1: "m_method (request 7 ''summarize'' noParams) \<notin> set knownMethods"
    by (simp add: request_def knownMethods_def)
  have 2: "m_method (request 8 ''ensure'' (noParams\<lparr>q_model := Some ''GPT''\<rparr>)) = ''ensure''
       \<and> toLowerCase (strOrEmpty (param q_model (m_params (request 8 ''ensure'' (noParams\<lparr>q_model := Some ''GPT''\<rparr>)))))
              \<notin> {''proofreader'', ''writer'', ''rewriter''}"
    by (simp add: request_def param_def strOrEmpty_def noParams_def toLowerCase_def lowerChar_def)
  have l: "toLowerCase (strOrEmpty (param q_model (m_params (request 8 ''ensure'' (noParams\<lparr>q_model := Some ''GPT''\<rparr>))))) = ''gpt''"
    by (simp add: request_def param_def strOrEmpty_def noParams_def toLowerCase_def lowerChar_def)
  from every_request_answered_once [of "request 7 ''summarize'' noParams" ?env 5 freshInpage] wf 1
  have a: "fst (inpageListener ?env 5 (Some (request 7 ''summarize'' noParams)) freshInpage)
     = [postResponse 7 None (Some ''Unknown method: summarize'')]"
    by (simp add: request_def)
  from every_request_answered_once [of "request 8 ''ensure'' (noParams\<lparr>q_model := Some ''GPT''\<rparr>)" ?env 5 freshInpage] wf 2
  have b: "fst (inpageListener ?env 5 (Some (request 8 ''ensure'' (noParams\<lparr>q_model := Some ''GPT''\<rparr>))) freshInpage)
     = [postResponse 8 None (Some ''Unknown model: gpt'')]"
    unfolding l by (simp add: request_def)
  from every_request_answered_once [of "request 9 ''proofread'' noParams" ?env 5 freshInpage] wf
    envSettles_proofreadThrows [of "ThrownString ''x''"]
  have c: "length (fst (inpageListener ?env 5 (Some (request 9 ''proofread'' noParams)) freshInpage)) = 1"
    by auto
  from a b c show ?thesis by simp
qed

theorem request_answers_counterexample:
  "fst (inpageListener (proofreadThrows (ThrownString ''x'')) 5
        (Some (request 8 ''ensure'' (noParams\<lparr>q_model := Some ''GPT''\<rparr>))) freshInpage)
   = [postResponse 8 None (Some ''Unknown model: gpt'')]
   \<and> \<not> jsIncludes ''Unknown model: gpt'' (''Unknown model: '' @ ''GPT'')
   \<and> fst (inpageListener writerNeverCreated 5
        (Some (request 9 ''write'' (noParams\<lparr>q_prompt := Some ''hello''\<rparr>))) freshInpage)
   = []"
proof -
  have wf: "m_gx (request i m ps) \<and> m_direction (request i m ps) = ''cs->inpage''" for i m ps
    by (simp add: request_def)
  have l: "toLowerCase ''GPT'' = ''gpt''" by (simp add: toLowerCase_def lowerChar_def)
  have a: "fst (inpageListener (proofreadThrows (ThrownString ''x'')) 5
        (Some (request 8 ''ensure'' (noParams\<lparr>q_model := Some ''GPT''\<rparr>))) freshInpage)
   = [postResponse 8 None (Some ''Unknown model: gpt'')]"
    by (simp add: listener_posts wf)
       (simp add: request_def handle_def Let_def param_def strOrEmpty_def noParams_def l
          errText_newError)
  have b: "\<not> jsIncludes ''Unknown model: gpt'' (''Unknown model: '' @ ''GPT'')"
    by simp
  have c: "fst (inpageListener writerNeverCreated 5
        (Some (request 9 ''write'' (noParams\<lparr>q_prompt := Some ''hello''\<rparr>))) freshInpage) = []"
    by (simp add: listener_posts wf)
       (simp add: request_def handle_def writerNeverCreated_def proofreadThrows_def)
  from a b c show ?thesis by simp
qed

section \<open>Properties of the idle monitor\<close>

lemma shouldDispose_iff:
  "shouldDispose now hidden st \<longleftrightarrow>
     now - lastActivityAt st > (if hidden then 20000 else 30000) \<or> now - lastPingAt st > 30000"
  by (simp add: shouldDispose_def Let_def HIDDEN_IDLE_MS_def MODEL_IDLE_MS_def PING_MISS_MS_def)

lemma idleCheck_stamps:
  "shouldDispose now hidden st \<Longrightarrow>
     lastActivityAt (idleCheck now hidden st) = now \<and> lastPingAt (idleCheck now hidden st) = now"
  by (simp add: idleCheck_def)

lemma disposeModels_clears:
  "cached (disposeModels reg) k = None \<and> creating (disposeModels reg) k = None"
  by (simp add: disposeModels_def)

lemma handle_ping_stamp: "lastPingAt (snd (handle env t ''ping'' ps st)) = t
    \<and> lastActivityAt (snd (handle env t ''ping'' ps st)) = lastActivityAt st"
  by (simp add: handle_def)

lemma handle_activity_stamp:
  "method \<in> {''warmup'', ''ensure'', ''write'', ''rewrite'', ''proofread''} \<Longrightarrow>
     lastActivityAt (snd (handle env t method ps st)) = t"
  by (auto simp: handle_def Let_def)

text \<open>
  Claim C7 (idle disposal timing), as the code has it. A run of the interval callback at
  time \<open>now\<close> disposes exactly when the time since the last activity exceeds its threshold
  (20 s when the page is hidden, 30 s when visible) or the time since the last ping
  exceeds 30 s; it then calls \<open>disposeModels\<close> and sets both timestamps to \<open>now\<close>. A later
  run at any time \<open>later\<close>, with no request handled in between, disposes again exactly when
  more than the activity threshold of that run has elapsed since \<open>now\<close>: not within 20 s
  of the disposal, and always beyond 30 s. A ping sets the ping timestamp and a
  model-invoking request the activity timestamp to the time of the request.
\<close>

theorem idle_disposal_once_per_threshold:
  "(shouldDispose now hidden st \<longleftrightarrow>
      now - lastActivityAt st > (if hidden then 20000 else 30000) \<or> now - lastPingAt st > 30000)
   \<and> (\<not> shouldDispose now hidden st \<longrightarrow> idleCheck now hidden st = st)
   \<and> (shouldDispose now hidden st \<longrightarrow>
        idleCheck now hidden st
          = st\<lparr>registry := disposeModels (registry st), lastActivityAt := now, lastPingAt := now\<rparr>
        \<and> (\<forall>k. cached (registry (idleCheck now hidden st)) k = None
                \<and> creating (registry (idleCheck now hidden st)) k = None)
        \<and> (shouldDispose later hidden' (idleCheck now hidden st) \<longleftrightarrow>
             later - now > (if hidden' then 20000 else 30000))
        \<and> (later - now \<le> 20000 \<longrightarrow> \<not> shouldDispose later hidden' (idleCheck now hidden st))
        \<and> (later - now > 30000 \<longrightarrow> shouldDispose later hidden' (idleCheck now hidden st)))
   \<and> lastPingAt (snd (handle env t ''ping'' ps st)) = t
   \<and> (method \<in> {''warmup'', ''ensure'', ''write'', ''rewrite'', ''proofread''} \<longrightarrow>
        lastActivityAt (snd (handle env t method ps st)) = t)"
proof (intro conjI impI allI)
  show "shouldDispose now hidden st \<longleftrightarrow>
      now - lastActivityAt st > (if hidden then 20000 else 30000) \<or> now - lastPingAt st > 30000"
    by (rule shouldDispose_iff)
  show "idleCheck now hidden st = st" if "\<not> shouldDispose now hidden st"
    using that by (simp add: idleCheck_def)
  show "lastPingAt (snd (handle env t ''ping'' ps st)) = t"
    by (simp add: handle_ping_stamp)
  show "lastActivityAt (snd (handle env t method ps st)) = t"
    if "method \<in> {''warmup'', ''ensure'', ''write'', ''rewrite'', ''proofread''}"
    using that by (rule handle_activity_stamp)
next
  assume d: "shouldDispose now hidden st"
  note s = idleCheck_stamps [OF d]
  show "idleCheck now hidden st
          = st\<lparr>registry := disposeModels (registry st), lastActivityAt := now, lastPingAt := now\<rparr>"
    using d by (simp add: idleCheck_def)
  show "cached (registry (idleCheck now hidden st)) k = None" for k
    using d by (simp add: idleCheck_def disposeModels_clears)
  show "creating (registry (idleCheck now hidden st)) k = None" for k
    using d by (simp add: idleCheck_def disposeModels_clears)
  show iff: "shouldDispose later hidden' (idleCheck now hidden st) \<longleftrightarrow>
             later - now > (if hidden' then 20000 else 30000)"
    using s by (auto simp: shouldDispose_iff)
  show "\<not> shouldDispose later hidden' (idleCheck now hidden st)" if "later - now \<le> 20000"
    using that by (simp add: iff)
  show "shouldDispose later hidden' (idleCheck now hidden st)" if "later - now > 30000"
    using that by (simp add: iff)
qed

theorem idle_disposal_once_per_threshold_witness:
  "\<not> shouldDispose 45019 True (idleCheck 30004 False freshInpage)
   \<and> shouldDispose 60021 False (idleCheck 30004 False freshInpage)
   \<and> lastActivityAt (snd (handle (proofreadThrows (ThrownString [])) 50000 ''proofread'' None
        (idleCheck 30004 False freshInpage))) = 50000"
proof -
  have d: "shouldDispose 30004 False freshInpage"
    by (simp add: shouldDispose_iff freshInpage_def)
  have m: "''proofread'' \<in> {''warmup'', ''ensure'', ''write'', ''rewrite'', ''proofread''}"
    by simp
  have a: "(45019::int) - 30004 \<le> 20000" by simp
  have b: "(60021::int) - 30004 > 30000" by simp
  note T = idle_disposal_once_per_threshold [of 30004 False freshInpage 45019 True]
  note U = idle_disposal_once_per_threshold [of 30004 False freshInpage 60021 False]
  note V = idle_disposal_once_per_threshold [of 50000 False "idleCheck 30004 False freshInpage"
      0 False "proofreadThrows (ThrownString [])" 50000 None "''proofread''"]
  from T d a have 1: "\<not> shouldDispose 45019 True (idleCheck 30004 False freshInpage)" by blast
  from U d b have 2: "shouldDispose 60021 False (idleCheck 30004 False freshInpage)" by blast
  from V m have 3: "lastActivityAt (snd (handle (proofreadThrows (ThrownString [])) 50000
        ''proofread'' None (idleCheck 30004 False freshInpage))) = 50000"
    by blast
  from 1 2 3 show ?thesis by simp
qed

theorem idle_disposal_repeats_counterexample:
  "idleDisposals freshInpage
     [(15002, False), (30004, False), (45019, False), (60021, False), (75023, False),
      (90040, False)] \<noteq> 1"
  by (simp add: shouldDispose_iff idleCheck_def freshInpage_def)

section \<open>Properties of the correlation bridge\<close>

lemma timeoutCallback_fields:
  "reqCounter (timeoutCallback j br) = reqCounter br"
  "timers (timeoutCallback j br) = timers br"
  "pending (timeoutCallback j br) = pending br - {j}"
  "outcome (timeoutCallback j br) k =
     (if k = j \<and> j \<in> pending br \<and> outcome br j = None
      then Some (Failed ''In-page call timed out'') else outcome br k)"
  by (auto simp: timeoutCallback_def settle_def split: option.splits)

lemma timeoutCallback_other:
  assumes "j \<noteq> i"
  shows "(i \<in> pending (timeoutCallback j br) \<longleftrightarrow> i \<in> pending br)
         \<and> outcome (timeoutCallback j br) i = outcome br i"
  using assms by (simp add: timeoutCallback_fields)

lemma timeoutCallback_absent:
  assumes "i \<notin> pending br"
  shows "i \<notin> pending (timeoutCallback j br) \<and> outcome (timeoutCallback j br) i = outcome br i"
  using assms by (auto simp: timeoutCallback_fields)

lemma timeoutCallback_hit:
  assumes "i \<in> pending br" "outcome br i = None"
  shows "i \<notin> pending (timeoutCallback i br)
         \<and> outcome (timeoutCallback i br) i = Some (Failed ''In-page call timed out'')"
  using assms by (simp add: timeoutCallback_fields)

lemma fire_fields:
  "reqCounter (foldl (\<lambda>b t. timeoutCallback (snd t) b) br due) = reqCounter br"
  "timers (foldl (\<lambda>b t. timeoutCallback (snd t) b) br due) = timers br"
  by (induction due arbitrary: br) (simp_all add: timeoutCallback_fields)

lemma fire_pending_subset:
  "pending (foldl (\<lambda>b t. timeoutCallback (snd t) b) br due) \<subseteq> pending br"
proof (induction due arbitrary: br)
  case Nil
  show ?case by simp
next
  case (Cons t due)
  have "pending (foldl (\<lambda>b t. timeoutCallback (snd t) b) (timeoutCallback (snd t) br) due)
        \<subseteq> pending (timeoutCallback (snd t) br)" by (rule Cons.IH)
  also have "\<dots> \<subseteq> pending br" by (auto simp: timeoutCallback_fields)
  finally show ?case by simp
qed

lemma fire_outcome_kept:
  assumes "outcome br i = Some v"
  shows "outcome (foldl (\<lambda>b t. timeoutCallback (snd t) b) br due) i = Some v"
  using assms
proof (induction due arbitrary: br)
  case Nil
  then show ?case by simp
next
  case (Cons t due)
  have "outcome (timeoutCallback (snd t) br) i = Some v"
    using Cons.prems by (auto simp: timeoutCallback_fields)
  from Cons.IH [OF this] show ?case by simp
qed

lemma fire_absent:
  assumes "i \<notin> pending br"
  shows "i \<notin> pending (foldl (\<lambda>b t. timeoutCallback (snd t) b) br due)
         \<and> outcome (foldl (\<lambda>b t. timeoutCallback (snd t) b) br due) i = outcome br i"
  using assms
proof (induction due arbitrary: br)
  case Nil
  then show ?case by simp
next
  case (Cons t due)
  from timeoutCallback_absent [OF Cons.prems, of "snd t"]
  have a: "i \<notin> pending (timeoutCallback (snd t) br)"
    and o: "outcome (timeoutCallback (snd t) br) i = outcome br i" by simp_all
  from Cons.IH [OF a] o show ?case by simp
qed

lemma fire_miss:
  assumes "i \<notin> snd ` set due"
  shows "(i \<in> pending (foldl (\<lambda>b t. timeoutCallback (snd t) b) br due) \<longleftrightarrow> i \<in> pending br)
         \<and> outcome (foldl (\<lambda>b t. timeoutCallback (snd t) b) br due) i = outcome br i"
  using assms
proof (induction due arbitrary: br)
  case Nil
  then show ?case by simp
next
  case (Cons t due)
  then have n: "snd t \<noteq> i" and r: "i \<notin> snd ` set due" by auto
  from timeoutCallback_other [OF n, of br] Cons.IH [OF r, of "timeoutCallback (snd t) br"]
  show ?case by simp
qed

lemma fire_hit:
  assumes "i \<in> snd ` set due" "i \<in> pending br" "outcome br i = None"
  shows "i \<notin> pending (foldl (\<lambda>b t. timeoutCallback (snd t) b) br due)
         \<and> outcome (foldl (\<lambda>b t. timeoutCallback (snd t) b) br due) i
             = Some (Failed ''In-page call timed out'')"
  using assms
proof (induction due arbitrary: br)
  case Nil
  then show ?case by simp
next
  case (Cons t due)
  show ?case
  proof (cases "snd t = i")
    case True
    from timeoutCallback_hit [OF Cons.prems(2,3)]
    have a: "i \<notin> pending (timeoutCallback i br)"
      and o: "outcome (timeoutCallback i br) i = Some (Failed ''In-page call timed out'')"
      by simp_all
    from fire_absent [OF a, of due] o True show ?thesis by simp
  next
    case False
    then have r: "i \<in> snd ` set due" using Cons.prems(1) by auto
    from timeoutCallback_other [OF False, of br] Cons.prems
    have "i \<in> pending (timeoutCallback (snd t) br)" "outcome (timeoutCallback (snd t) br) i = None"
      by simp_all
    from Cons.IH [OF r this] show ?thesis by simp
  qed
qed

lemma runTimers_fields:
  "reqCounter (runTimers now br) = reqCounter br"
  "timers (runTimers now br) = filter (\<lambda>t. now < fst t) (timers br)"
  by (simp_all add: runTimers_def fire_fields)

lemma runTimers_pending_subset: "pending (runTimers now br) \<subseteq> pending br"
  using fire_pending_subset [of "br\<lparr>timers := filter (\<lambda>t. now < fst t) (timers br)\<rparr>"]
  by (simp add: runTimers_def)

lemma runTimers_outcome_kept:
  assumes "outcome br i = Some v"
  shows "outcome (runTimers now br) i = Some v"
  using assms by (simp add: runTimers_def fire_outcome_kept)

lemma runTimers_absent:
  assumes "i \<notin> pending br"
  shows "i \<notin> pending (runTimers now br) \<and> outcome (runTimers now br) i = outcome br i"
  using fire_absent [of i "br\<lparr>timers := filter (\<lambda>t. now < fst t) (timers br)\<rparr>"] assms
  by (simp add: runTimers_def)

lemma runTimers_miss:
  assumes "\<forall>t\<in>set (timers br). snd t = i \<longrightarrow> now < fst t"
  shows "(i \<in> pending (runTimers now br) \<longleftrightarrow> i \<in> pending br)
         \<and> outcome (runTimers now br) i = outcome br i"
proof -
  have "i \<notin> snd ` set (filter (\<lambda>t. fst t \<le> now) (timers br))"
    using assms by force
  from fire_miss [OF this, of "br\<lparr>timers := filter (\<lambda>t. now < fst t) (timers br)\<rparr>"]
  show ?thesis by (simp add: runTimers_def)
qed

lemma runTimers_hit:
  assumes "(d, i) \<in> set (timers br)" "d \<le> now" "i \<in> pending br" "outcome br i = None"
  shows "i \<notin> pending (runTimers now br)
         \<and> outcome (runTimers now br) i = Some (Failed ''In-page call timed out'')"
proof -
  have "i \<in> snd ` set (filter (\<lambda>t. fst t \<le> now) (timers br))"
    using assms(1,2) by force
  from fire_hit [OF this, of "br\<lparr>timers := filter (\<lambda>t. now < fst t) (timers br)\<rparr>"] assms(3,4)
  show ?thesis by (simp add: runTimers_def)
qed

lemma callInpage_fields:
  "fst (callInpage now method ps br) = reqCounter br"
  "reqCounter (snd (callInpage now method ps br)) = reqCounter br + 1"
  "pending (snd (callInpage now method ps br)) = insert (reqCounter br) (pending br)"
  "timers (snd (callInpage now method ps br)) = timers br @ [(now + TIMEOUT_MS, reqCounter br)]"
  "outcome (snd (callInpage now method ps br)) = outcome br"
  by (simp_all add: callInpage_def Let_def)

lemma listener_fields:
  "reqCounter (bridgeListener data br) = reqCounter br"
  "timers (bridgeListener data br) = timers br"
  by (auto simp: bridgeListener_def split: option.splits)

lemma listener_pending_subset: "pending (bridgeListener data br) \<subseteq> pending br"
  by (auto simp: bridgeListener_def split: option.splits if_splits)

lemma listener_other:
  assumes "\<not> answers i (Message data)"
  shows "(i \<in> pending (bridgeListener data br) \<longleftrightarrow> i \<in> pending br)
         \<and> outcome (bridgeListener data br) i = outcome br i"
proof (cases data)
  case None
  then show ?thesis by (simp add: bridgeListener_def)
next
  case (Some d)
  with assms have "s_id d \<noteq> i" by simp
  then show ?thesis
    using Some by (auto simp: bridgeListener_def settle_def split: option.splits)
qed

lemma listener_dropped:
  assumes "i \<notin> pending br"
  shows "bridgeListener (Some (postResponse i res err)) br = br"
  using assms by (simp add: bridgeListener_def postResponse_def)

lemma listener_outcome_kept:
  assumes "outcome br i = Some v"
  shows "outcome (bridgeListener data br) i = Some v"
  using assms by (auto simp: bridgeListener_def settle_def split: option.splits)

lemma runTimers_either:
  assumes "i \<in> pending br" "outcome br i = None"
  shows "(i \<in> pending (runTimers now br) \<and> outcome (runTimers now br) i = None)
       \<or> (i \<notin> pending (runTimers now br)
           \<and> outcome (runTimers now br) i = Some (Failed ''In-page call timed out''))"
proof (cases "\<forall>t\<in>set (timers br). snd t = i \<longrightarrow> now < fst t")
  case True
  from runTimers_miss [OF True] assms show ?thesis by simp
next
  case False
  then obtain d where "(d, i) \<in> set (timers br)" "d \<le> now" by force
  from runTimers_hit [OF this assms] show ?thesis by simp
qed

lemma bridgeInv_init: "bridgeInv initBridge"
  by (simp add: bridgeInv_def initBridge_def)

lemma bridgeInv_call:
  assumes "bridgeInv br"
  shows "bridgeInv (snd (callInpage now method ps br))"
  using assms by (auto simp: bridgeInv_def callInpage_fields)

lemma bridgeInv_listener:
  assumes "bridgeInv br"
  shows "bridgeInv (bridgeListener data br)"
proof -
  have p: "\<forall>j\<in>pending br. j < reqCounter br \<and> outcome br j = None"
    and o: "\<forall>j. reqCounter br \<le> j \<longrightarrow> outcome br j = None"
    and t: "\<forall>t\<in>set (timers br). snd t < reqCounter br"
    using assms by (simp_all add: bridgeInv_def)
  show ?thesis
  proof (cases "\<exists>d. data = Some d \<and> s_gx d \<and> s_direction d = ''inpage->cs'' \<and> s_id d \<in> pending br")
    case False
    then have "bridgeListener data br = br"
      by (auto simp: bridgeListener_def split: option.splits)
    with assms show ?thesis by simp
  next
    case True
    then obtain d where d: "data = Some d" "s_gx d" "s_direction d = ''inpage->cs''"
      "s_id d \<in> pending br" by blast
    have pe: "pending (bridgeListener data br) = pending br - {s_id d}"
      using d by (auto simp: bridgeListener_def split: option.splits)
    have ou: "outcome (bridgeListener data br) j = outcome br j" if "j \<noteq> s_id d" for j
      using d that by (auto simp: bridgeListener_def settle_def split: option.splits)
    have lt: "s_id d < reqCounter br" using p d by blast
    have 1: "j < reqCounter (bridgeListener data br) \<and> outcome (bridgeListener data br) j = None"
      if "j \<in> pending (bridgeListener data br)" for j
    proof -
      from that have "j \<in> pending br" "j \<noteq> s_id d" by (simp_all add: pe)
      then show ?thesis using p by (simp add: listener_fields ou)
    qed
    have 2: "outcome (bridgeListener data br) j = None"
      if "reqCounter (bridgeListener data br) \<le> j" for j
    proof -
      from that have "reqCounter br \<le> j" "j \<noteq> s_id d" using lt by (simp_all add: listener_fields)
      then show ?thesis using o by (simp add: ou)
    qed
    have 3: "snd u < reqCounter (bridgeListener data br)"
      if "u \<in> set (timers (bridgeListener data br))" for u
      using that t by (simp add: listener_fields)
    show ?thesis
      unfolding bridgeInv_def using 1 2 3 by blast
  qed
qed

lemma bridgeInv_timers:
  assumes "bridgeInv br"
  shows "bridgeInv (runTimers now br)"
proof -
  have p: "\<forall>j\<in>pending br. j < reqCounter br \<and> outcome br j = None"
    and o: "\<forall>j. reqCounter br \<le> j \<longrightarrow> outcome br j = None"
    and t: "\<forall>t\<in>set (timers br). snd t < reqCounter br"
    using assms by (simp_all add: bridgeInv_def)
  have 1: "j < reqCounter (runTimers now br) \<and> outcome (runTimers now br) j = None"
    if a: "j \<in> pending (runTimers now br)" for j
  proof -
    have jp: "j \<in> pending br" using a runTimers_pending_subset by blast
    then have "outcome br j = None" using p by blast
    from runTimers_either [OF jp this, of now] a
    have "outcome (runTimers now br) j = None" by blast
    then show ?thesis using p jp by (simp add: runTimers_fields)
  qed
  have 2: "outcome (runTimers now br) j = None" if "reqCounter (runTimers now br) \<le> j" for j
  proof -
    from that have r: "reqCounter br \<le> j" by (simp add: runTimers_fields)
    then have "j \<notin> pending br" using p by force
    from runTimers_absent [OF this, of now] o r show ?thesis by simp
  qed
  have 3: "snd u < reqCounter (runTimers now br)" if "u \<in> set (timers (runTimers now br))" for u
    using that t by (simp add: runTimers_fields)
  show ?thesis
    unfolding bridgeInv_def using 1 2 3 by blast
qed

lemma bridgeInv_step: "bridgeInv br \<Longrightarrow> bridgeInv (bridgeStep br ev)"
  by (cases ev) (simp_all add: bridgeInv_call bridgeInv_listener bridgeInv_timers)

lemma bridgeInv_run: "bridgeInv br \<Longrightarrow> bridgeInv (bridgeRun br evs)"
  unfolding bridgeRun_def
  by (induction evs arbitrary: br) (simp_all add: bridgeInv_step)

text \<open>A call that has left the table stays out of it, with its outcome.\<close>

lemma settled_step:
  assumes "i \<notin> pending br" "i < reqCounter br"
  shows "i \<notin> pending (bridgeStep br ev) \<and> i < reqCounter (bridgeStep br ev)
         \<and> outcome (bridgeStep br ev) i = outcome br i"
proof (cases ev)
  case (Call now m ps)
  then show ?thesis using assms by (simp add: callInpage_fields)
next
  case (Message data)
  show ?thesis
  proof (cases "answers i (Message data)")
    case True
    then obtain d where "data = Some d" "s_id d = i" by (cases data) auto
    then have "bridgeListener data br = br" using assms by (simp add: bridgeListener_def)
    then show ?thesis using Message assms by simp
  next
    case False
    from listener_other [OF False, of br] Message assms show ?thesis
      by (simp add: listener_fields)
  qed
next
  case (Timers now)
  from runTimers_absent [OF assms(1), of now] Timers assms show ?thesis
    by (simp add: runTimers_fields)
qed

lemma settled_run:
  assumes "i \<notin> pending br" "i < reqCounter br"
  shows "i \<notin> pending (bridgeRun br evs) \<and> i < reqCounter (bridgeRun br evs)
         \<and> outcome (bridgeRun br evs) i = outcome br i"
  using assms unfolding bridgeRun_def
proof (induction evs arbitrary: br)
  case Nil
  then show ?case by simp
next
  case (Cons ev evs)
  from settled_step [OF Cons.prems, of ev]
  have s: "i \<notin> pending (bridgeStep br ev)" "i < reqCounter (bridgeStep br ev)"
    "outcome (bridgeStep br ev) i = outcome br i" by simp_all
  from Cons.IH [OF s(1,2)] s(3) show ?case by simp
qed

text \<open>A call in the table whose response does not arrive stays there until its timer runs.\<close>

lemma waiting_step:
  assumes "i \<in> pending br" "outcome br i = None" "(d, i) \<in> set (timers br)" "i < reqCounter br"
    and "\<not> answers i ev"
  shows "(i \<in> pending (bridgeStep br ev) \<and> outcome (bridgeStep br ev) i = None
            \<and> (d, i) \<in> set (timers (bridgeStep br ev)))
         \<or> (i \<notin> pending (bridgeStep br ev)
            \<and> outcome (bridgeStep br ev) i = Some (Failed ''In-page call timed out''))"
    and "i < reqCounter (bridgeStep br ev)"
proof -
  show "i < reqCounter (bridgeStep br ev)"
    using assms(4) by (cases ev) (simp_all add: callInpage_fields listener_fields runTimers_fields)
  show "(i \<in> pending (bridgeStep br ev) \<and> outcome (bridgeStep br ev) i = None
            \<and> (d, i) \<in> set (timers (bridgeStep br ev)))
         \<or> (i \<notin> pending (bridgeStep br ev)
            \<and> outcome (bridgeStep br ev) i = Some (Failed ''In-page call timed out''))"
  proof (cases ev)
    case (Call now m ps)
    then show ?thesis using assms by (simp add: callInpage_fields)
  next
    case (Message data)
    from listener_other [of i data br] assms(5) Message
    show ?thesis using assms(1-3) by (simp add: listener_fields)
  next
    case (Timers now)
    show ?thesis
    proof (cases "d \<le> now")
      case True
      from runTimers_hit [OF assms(3) True assms(1,2)] Timers show ?thesis by simp
    next
      case False
      then have "(d, i) \<in> set (timers (runTimers now br))"
        using assms(3) by (simp add: runTimers_fields)
      with runTimers_either [OF assms(1,2), of now] Timers show ?thesis by auto
    qed
  qed
qed

lemma waiting_run:
  assumes "i \<in> pending br" "outcome br i = None" "(d, i) \<in> set (timers br)" "i < reqCounter br"
    and "\<forall>ev\<in>set evs. \<not> answers i ev"
  shows "((i \<in> pending (bridgeRun br evs) \<and> outcome (bridgeRun br evs) i = None
            \<and> (d, i) \<in> set (timers (bridgeRun br evs)))
         \<or> (i \<notin> pending (bridgeRun br evs)
            \<and> outcome (bridgeRun br evs) i = Some (Failed ''In-page call timed out'')))
         \<and> i < reqCounter (bridgeRun br evs)"
  using assms
proof (induction evs arbitrary: br)
  case Nil
  then show ?case by (simp add: bridgeRun_def)
next
  case (Cons ev evs)
  have na: "\<not> answers i ev" and rest: "\<forall>ev\<in>set evs. \<not> answers i ev"
    using Cons.prems(5) by simp_all
  have lt: "i < reqCounter (bridgeStep br ev)"
    by (rule waiting_step(2) [OF Cons.prems(1-4) na])
  have run: "bridgeRun br (ev # evs) = bridgeRun (bridgeStep br ev) evs"
    by (simp add: bridgeRun_def)
  from waiting_step(1) [OF Cons.prems(1-4) na]
  show ?case
  proof
    assume "i \<in> pending (bridgeStep br ev) \<and> outcome (bridgeStep br ev) i = None
            \<and> (d, i) \<in> set (timers (bridgeStep br ev))"
    then show ?thesis unfolding run using Cons.IH [OF _ _ _ lt rest] by blast
  next
    assume s: "i \<notin> pending (bridgeStep br ev)
            \<and> outcome (bridgeStep br ev) i = Some (Failed ''In-page call timed out'')"
    from settled_run [of i "bridgeStep br ev" evs] s lt
    show ?thesis unfolding run by simp
  qed
qed

text \<open>Before its deadline the timer of the call does not run.\<close>

lemma early_step:
  assumes "i \<in> pending br" "outcome br i = None" "i < reqCounter br"
    and "\<forall>t\<in>set (timers br). snd t = i \<longrightarrow> fst t = d"
    and "\<not> answers i ev" "timersBefore d ev"
  shows "i \<in> pending (bridgeStep br ev) \<and> outcome (bridgeStep br ev) i = None
         \<and> i < reqCounter (bridgeStep br ev)
         \<and> (\<forall>t\<in>set (timers (bridgeStep br ev)). snd t = i \<longrightarrow> fst t = d)"
proof (cases ev)
  case (Call now m ps)
  then show ?thesis using assms by (auto simp: callInpage_fields)
next
  case (Message data)
  from listener_other [of i data br] assms(5) Message
  show ?thesis using assms(1-4) by (simp add: listener_fields)
next
  case (Timers now)
  then have "now < d" using assms(6) by simp
  then have "\<forall>t\<in>set (timers br). snd t = i \<longrightarrow> now < fst t" using assms(4) by auto
  from runTimers_miss [OF this] Timers assms(1-4) show ?thesis
    by (simp add: runTimers_fields)
qed

lemma early_run:
  assumes "i \<in> pending br" "outcome br i = None" "i < reqCounter br"
    and "\<forall>t\<in>set (timers br). snd t = i \<longrightarrow> fst t = d"
    and "\<forall>ev\<in>set evs. \<not> answers i ev \<and> timersBefore d ev"
  shows "i \<in> pending (bridgeRun br evs) \<and> outcome (bridgeRun br evs) i = None"
  using assms
proof (induction evs arbitrary: br)
  case Nil
  then show ?case by (simp add: bridgeRun_def)
next
  case (Cons ev evs)
  have e: "\<not> answers i ev" "timersBefore d ev"
    and rest: "\<forall>ev\<in>set evs. \<not> answers i ev \<and> timersBefore d ev"
    using Cons.prems(5) by simp_all
  from early_step [OF Cons.prems(1-4) e]
  have s: "i \<in> pending (bridgeStep br ev)" "outcome (bridgeStep br ev) i = None"
    "i < reqCounter (bridgeStep br ev)"
    "\<forall>t\<in>set (timers (bridgeStep br ev)). snd t = i \<longrightarrow> fst t = d" by simp_all
  from Cons.IH [OF s rest] show ?case by (simp add: bridgeRun_def)
qed

lemma call_waits:
  assumes "bridgeInv br" "callInpage t0 m ps br = (i, br1)"
  shows "i \<in> pending br1 \<and> outcome br1 i = None \<and> (t0 + TIMEOUT_MS, i) \<in> set (timers br1)
         \<and> i < reqCounter br1
         \<and> (\<forall>t\<in>set (timers br1). snd t = i \<longrightarrow> fst t = t0 + TIMEOUT_MS)"
proof -
  have i: "i = reqCounter br" and b: "br1 = snd (callInpage t0 m ps br)"
    using assms(2) callInpage_fields(1) [of t0 m ps br] by simp_all
  have o: "outcome br i = None" and t: "\<forall>t\<in>set (timers br). snd t < i"
    using assms(1) i by (simp_all add: bridgeInv_def)
  show ?thesis
    unfolding b using o t i by (auto simp: callInpage_fields)
qed

text \<open>
  Claim C6 (timeout cleanup in the correlation bridge). For every call made through the
  bridge, in any state the bridge can reach: while no response with the id of the call is
  handled and the timers have not run 60 seconds or more after the call, the call stays
  in the pending table, unsettled. When no response with its id has been handled and the
  timers run 60 seconds or more after the call, the call is rejected with the timeout
  failure and its entry is gone from the table; from then on, whatever else happens, the
  entry stays absent and the outcome stays the timeout failure, and a response that arrives
  with this id leaves the bridge unchanged.
\<close>

theorem timeout_rejects_and_drops_late_response:
  "callInpage t0 method ps (bridgeRun initBridge evs0) = (i, br1)
     \<and> (\<forall>ev\<in>set evs1. \<not> answers i ev)
   \<longrightarrow> ((\<forall>ev\<in>set evs1. timersBefore (t0 + 60000) ev) \<longrightarrow>
          i \<in> pending (bridgeRun br1 evs1) \<and> outcome (bridgeRun br1 evs1) i = None)
       \<and> (t0 + 60000 \<le> now \<longrightarrow>
          (let br3 = runTimers now (bridgeRun br1 evs1);
               br4 = bridgeRun br3 evs2
           in i \<notin> pending br3
              \<and> outcome br3 i = Some (Failed ''In-page call timed out'')
              \<and> i \<notin> pending br4
              \<and> outcome br4 i = Some (Failed ''In-page call timed out'')
              \<and> bridgeListener (Some (postResponse i res err)) br4 = br4))"
proof (intro impI conjI)
  assume a: "callInpage t0 method ps (bridgeRun initBridge evs0) = (i, br1)
     \<and> (\<forall>ev\<in>set evs1. \<not> answers i ev)"
  have inv: "bridgeInv (bridgeRun initBridge evs0)"
    by (rule bridgeInv_run [OF bridgeInv_init])
  from a have c: "callInpage t0 method ps (bridgeRun initBridge evs0) = (i, br1)" by simp
  from call_waits [OF inv c]
  have w: "i \<in> pending br1" "outcome br1 i = None" "(t0 + 60000, i) \<in> set (timers br1)"
    "i < reqCounter br1" "\<forall>t\<in>set (timers br1). snd t = i \<longrightarrow> fst t = t0 + 60000"
    by (simp_all add: TIMEOUT_MS_def)
  {
    assume "\<forall>ev\<in>set evs1. timersBefore (t0 + 60000) ev"
    with a have "\<forall>ev\<in>set evs1. \<not> answers i ev \<and> timersBefore (t0 + 60000) ev" by simp
    from early_run [OF w(1,2,4,5) this]
    show "i \<in> pending (bridgeRun br1 evs1)" "outcome (bridgeRun br1 evs1) i = None"
      by simp_all
  }
  assume late: "t0 + 60000 \<le> now"
  define br2 where "br2 = bridgeRun br1 evs1"
  define br3 where "br3 = runTimers now br2"
  define br4 where "br4 = bridgeRun br3 evs2"
  from a have na: "\<forall>ev\<in>set evs1. \<not> answers i ev" by simp
  from waiting_run [OF w(1-4) na]
  have r2: "(i \<in> pending br2 \<and> outcome br2 i = None \<and> (t0 + 60000, i) \<in> set (timers br2))
         \<or> (i \<notin> pending br2 \<and> outcome br2 i = Some (Failed ''In-page call timed out''))"
    and lt2: "i < reqCounter br2"
    by (simp_all add: br2_def)
  have r3: "i \<notin> pending br3 \<and> outcome br3 i = Some (Failed ''In-page call timed out'')"
    using r2
  proof
    assume q: "i \<in> pending br2 \<and> outcome br2 i = None \<and> (t0 + 60000, i) \<in> set (timers br2)"
    then show ?thesis
      unfolding br3_def using runTimers_hit [of "t0 + 60000" i br2 now] late by simp
  next
    assume s: "i \<notin> pending br2 \<and> outcome br2 i = Some (Failed ''In-page call timed out'')"
    then show ?thesis
      unfolding br3_def using runTimers_absent [of i br2 now] by simp
  qed
  have lt3: "i < reqCounter br3" using lt2 by (simp add: br3_def runTimers_fields)
  from settled_run [of i br3 evs2] r3 lt3
  have r4: "i \<notin> pending br4 \<and> outcome br4 i = Some (Failed ''In-page call timed out'')"
    by (simp add: br4_def)
  then have "bridgeListener (Some (postResponse i res err)) br4 = br4"
    by (simp add: listener_dropped)
  with r3 r4 show "let br3 = runTimers now (bridgeRun br1 evs1);
               br4 = bridgeRun br3 evs2
           in i \<notin> pending br3
              \<and> outcome br3 i = Some (Failed ''In-page call timed out'')
              \<and> i \<notin> pending br4
              \<and> outcome br4 i = Some (Failed ''In-page call timed out'')
              \<and> bridgeListener (Some (postResponse i res err)) br4 = br4"
    by (simp add: Let_def br2_def br3_def br4_def)
qed

theorem timeout_rejects_and_drops_late_response_witness:
  "1 \<in> pending (bridgeRun (snd (callInpage 0 ''proofread'' None initBridge))
        [Timers 30000, Message (Some (postResponse 0 (Some (RPing 5)) None))])
   \<and> outcome (runTimers 60000 (bridgeRun (snd (callInpage 0 ''proofread'' None initBridge))
        [Timers 30000, Message (Some (postResponse 0 (Some (RPing 5)) None))])) 1
     = Some (Failed ''In-page call timed out'')
   \<and> bridgeListener (Some (postResponse 1 (Some ROk) None))
        (bridgeRun (runTimers 60000 (bridgeRun (snd (callInpage 0 ''proofread'' None initBridge))
           [Timers 30000, Message (Some (postResponse 0 (Some (RPing 5)) None))]))
           [Call 61000 ''proofread'' None])
     = bridgeRun (runTimers 60000 (bridgeRun (snd (callInpage 0 ''proofread'' None initBridge))
           [Timers 30000, Message (Some (postResponse 0 (Some (RPing 5)) None))]))
           [Call 61000 ''proofread'' None]"
proof -
  let ?br1 = "snd (callInpage 0 ''proofread'' None initBridge)"
  let ?evs1 = "[Timers 30000, Message (Some (postResponse 0 (Some (RPing 5)) None))]"
  have h: "callInpage 0 ''proofread'' None (bridgeRun initBridge []) = (1, ?br1)
     \<and> (\<forall>ev\<in>set ?evs1. \<not> answers 1 ev)"
    by (simp add: bridgeRun_def callInpage_def initBridge_def Let_def postResponse_def)
  have e: "\<forall>ev\<in>set ?evs1. timersBefore (0 + 60000) ev" by simp
  have l: "(0::int) + 60000 \<le> 60000" by simp
  note T = timeout_rejects_and_drops_late_response [of 0 "''proofread''" None "[]" 1 ?br1 ?evs1
      60000 "[Call 61000 ''proofread'' None]" "Some ROk" None]
  from T h e have 1: "1 \<in> pending (bridgeRun ?br1 ?evs1)" by blast
  from T h l have "let br3 = runTimers 60000 (bridgeRun ?br1 ?evs1);
               br4 = bridgeRun br3 [Call 61000 ''proofread'' None]
           in 1 \<notin> pending br3
              \<and> outcome br3 1 = Some (Failed ''In-page call timed out'')
              \<and> 1 \<notin> pending br4
              \<and> outcome br4 1 = Some (Failed ''In-page call timed out'')
              \<and> bridgeListener (Some (postResponse 1 (Some ROk) None)) br4 = br4"
    by blast
  with 1 show ?thesis by (simp add: Let_def)
qed

section \<open>Properties of the realtime pipeline\<close>

lemma debounced_throttled:
  assumes "length t \<le> MAX_REALTIME_CHARS" "now - lastProofreadAt st < MIN_INTERVAL_MS"
  shows "debouncedCallback False t now st
         = (Rescheduled (MIN_INTERVAL_MS - (now - lastProofreadAt st)),
            st\<lparr>debounce := Some (MIN_INTERVAL_MS - (now - lastProofreadAt st), Reschedule)\<rparr>)"
  using assms by (simp add: debouncedCallback_def Let_def)

lemma debounced_issues:
  assumes "length t \<le> MAX_REALTIME_CHARS" "immediate \<or> MIN_INTERVAL_MS \<le> now - lastProofreadAt st"
  shows "debouncedCallback immediate t now st
         = (Issued (inflight st + 1) t, st\<lparr>debounce := None, inflight := inflight st + 1\<rparr>)"
  using assms by (auto simp: debouncedCallback_def Let_def)

lemma debounced_issued_elapsed:
  assumes "fst (debouncedCallback False t now st) = Issued token t'"
  shows "MIN_INTERVAL_MS \<le> now - lastProofreadAt st"
  using assms by (auto simp: debouncedCallback_def Let_def split: if_splits)

lemma reschedule_fires:
  assumes "debounce st = Some (d, Reschedule)"
  shows "timerFires t now st = (Skipped, st\<lparr>debounce := Some (0, Debounced True)\<rparr>)"
  using assms by (simp add: timerFires_def schedule_def)

lemma immediate_timer_issues:
  assumes "debounce st = Some (d, Debounced True)" "length t \<le> MAX_REALTIME_CHARS"
  shows "fst (timerFires t now st) = Issued (inflight st + 1) t"
  using assms by (simp add: timerFires_def debounced_issues)

text \<open>
  Claim C8 (minimum-interval throttle), as the code has it. When the debounced callback of
  a schedule that is not immediate runs less than 700 ms after the timestamp of the last
  applied proofread (on a text within the size limit), the call is not issued and not
  dropped: a timer is armed for exactly the remaining wait, 700 ms minus the elapsed time,
  and when it runs it schedules an immediate call, which is issued. Every call issued by a
  schedule that is not immediate comes at least 700 ms after that timestamp. An immediate
  schedule is not throttled: its call is issued whatever time has elapsed.
\<close>

theorem throttle_reschedules_non_immediate:
  "(length t \<le> MAX_REALTIME_CHARS \<and> now - lastProofreadAt st < MIN_INTERVAL_MS \<longrightarrow>
      debouncedCallback False t now st
        = (Rescheduled (700 - (now - lastProofreadAt st)),
           st\<lparr>debounce := Some (700 - (now - lastProofreadAt st), Reschedule)\<rparr>)
      \<and> timerFires t' now' (snd (debouncedCallback False t now st))
        = (Skipped, st\<lparr>debounce := Some (0, Debounced True)\<rparr>)
      \<and> (length t' \<le> MAX_REALTIME_CHARS \<longrightarrow>
           fst (timerFires t' now'' (snd (timerFires t' now' (snd (debouncedCallback False t now st)))))
           = Issued (inflight st + 1) t'))
   \<and> (fst (debouncedCallback False t now st) = Issued token t' \<longrightarrow>
        700 \<le> now - lastProofreadAt st)
   \<and> (length t \<le> MAX_REALTIME_CHARS \<longrightarrow>
        fst (debouncedCallback True t now st) = Issued (inflight st + 1) t)"
proof (intro conjI impI)
  assume a: "length t \<le> MAX_REALTIME_CHARS \<and> now - lastProofreadAt st < MIN_INTERVAL_MS"
  then have dc: "debouncedCallback False t now st
        = (Rescheduled (700 - (now - lastProofreadAt st)),
           st\<lparr>debounce := Some (700 - (now - lastProofreadAt st), Reschedule)\<rparr>)"
    using debounced_throttled [of t now st] by (simp add: MIN_INTERVAL_MS_def)
  then show "debouncedCallback False t now st
        = (Rescheduled (700 - (now - lastProofreadAt st)),
           st\<lparr>debounce := Some (700 - (now - lastProofreadAt st), Reschedule)\<rparr>)" .
  show tf: "timerFires t' now' (snd (debouncedCallback False t now st))
        = (Skipped, st\<lparr>debounce := Some (0, Debounced True)\<rparr>)"
    by (simp add: dc reschedule_fires)
  show "fst (timerFires t' now'' (snd (timerFires t' now' (snd (debouncedCallback False t now st)))))
           = Issued (inflight st + 1) t'" if "length t' \<le> MAX_REALTIME_CHARS"
    using that by (simp add: tf immediate_timer_issues)
next
  show "700 \<le> now - lastProofreadAt st" if "fst (debouncedCallback False t now st) = Issued token t'"
    using debounced_issued_elapsed [OF that] by (simp add: MIN_INTERVAL_MS_def)
  show "fst (debouncedCallback True t now st) = Issued (inflight st + 1) t"
    if "length t \<le> MAX_REALTIME_CHARS"
    using that by (simp add: debounced_issues)
qed

theorem throttle_reschedules_non_immediate_witness:
  "debouncedCallback False ''Teh cat'' 1300 (freshSession\<lparr>lastProofreadAt := 1000\<rparr>)
   = (Rescheduled 400, freshSession\<lparr>lastProofreadAt := 1000, debounce := Some (400, Reschedule)\<rparr>)
   \<and> fst (debouncedCallback True ''Teh cat'' 1300 (freshSession\<lparr>lastProofreadAt := 1000\<rparr>))
     = Issued 1 ''Teh cat''"
proof -
  let ?st = "freshSession\<lparr>lastProofreadAt := 1000\<rparr>"
  have h: "length ''Teh cat'' \<le> MAX_REALTIME_CHARS \<and> 1300 - lastProofreadAt ?st < MIN_INTERVAL_MS"
    by (simp add: MAX_REALTIME_CHARS_def MIN_INTERVAL_MS_def freshSession_def)
  note T = throttle_reschedules_non_immediate [of "''Teh cat''" 1300 ?st "''Teh cat''" 1700 1700 1]
  from T h have "debouncedCallback False ''Teh cat'' 1300 ?st
        = (Rescheduled (700 - (1300 - lastProofreadAt ?st)),
           ?st\<lparr>debounce := Some (700 - (1300 - lastProofreadAt ?st), Reschedule)\<rparr>)"
    by blast
  then have 1: "debouncedCallback False ''Teh cat'' 1300 ?st
     = (Rescheduled 400, freshSession\<lparr>lastProofreadAt := 1000, debounce := Some (400, Reschedule)\<rparr>)"
    by (simp add: freshSession_def)
  from T h have "fst (debouncedCallback True ''Teh cat'' 1300 ?st) = Issued (inflight ?st + 1) ''Teh cat''"
    by blast
  then have 2: "fst (debouncedCallback True ''Teh cat'' 1300 ?st) = Issued 1 ''Teh cat''"
    by (simp add: freshSession_def)
  from 1 2 show ?thesis by simp
qed

theorem throttle_bypassed_counterexample:
  "1300 - lastProofreadAt (freshSession\<lparr>lastProofreadAt := 1000\<rparr>) < MIN_INTERVAL_MS
   \<and> fst (debouncedCallback True ''Teh cat'' 1300 (freshSession\<lparr>lastProofreadAt := 1000\<rparr>))
     = Issued 1 ''Teh cat''"
  by (simp add: debouncedCallback_def Let_def MAX_REALTIME_CHARS_def MIN_INTERVAL_MS_def
      freshSession_def)


lemma inflight_step: "inflight st \<le> inflight (rtStep st ev)"
  by (cases ev)
     (auto simp: schedule_def timerFires_def debouncedCallback_def Let_def responseHandler_def
        refreshHandler_def cleanup_def
        split: option.splits prod.splits TimerBody.splits CallResult.splits if_splits)

lemma inflight_run: "inflight st \<le> inflight (rtRun st evs)"
  unfolding rtRun_def
proof (induction evs arbitrary: st)
  case Nil
  show ?case by simp
next
  case (Cons ev evs)
  have "inflight st \<le> inflight (rtStep st ev)" by (rule inflight_step)
  also have "\<dots> \<le> inflight (foldl rtStep (rtStep st ev) evs)" by (rule Cons.IH)
  finally show ?case by simp
qed

lemma stale_discarded: "token \<noteq> inflight st \<Longrightarrow> responseHandler token t res now st = st"
  by (simp add: responseHandler_def split: CallResult.splits option.splits)

lemma response_keeps_inflight: "inflight (responseHandler token t res now st) = inflight st"
  by (simp add: responseHandler_def Let_def split: CallResult.splits option.splits)

lemma issued_token:
  assumes "debouncedCallback immediate t now st = (Issued token t', st')"
  shows "token = inflight st + 1 \<and> inflight st' = token \<and> t' = t"
  using assms by (auto simp: debouncedCallback_def Let_def split: if_splits)

lemma fresh_applied:
  assumes "token = inflight st" "\<not> p_cancelled pl"
  shows "responseHandler token t (Result (Some pl)) now st
         = st\<lparr>lastText := t, lastRanges := p_ranges pl, lastProofreadAt := now,
               rendered := render t (p_ranges pl)\<rparr>"
  using assms by (simp add: responseHandler_def Let_def)

text \<open>
  What the token achieves for the calls of the debounced callback. The handler of a
  response whose token differs from the current counter leaves the session as it is:
  nothing is rendered and the last observed text and ranges stay. When call A is issued
  and call B is issued later, after any events in between, A's token is smaller than B's;
  A's response is discarded in every state reached after B was issued, B's payload is
  applied when its response arrives first, and whichever response arrives first, the
  session ends as if only B's response had been handled. The cleanup of the session
  increments the counter, so the response of every such call issued before it is
  discarded in every state reached afterwards.
\<close>

lemma token_path_discards_stale:
  "(token \<noteq> inflight st \<longrightarrow>
      responseHandler token t res now st = st
      \<and> rendered (responseHandler token t res now st) = rendered st
      \<and> lastText (responseHandler token t res now st) = lastText st
      \<and> lastRanges (responseHandler token t res now st) = lastRanges st)
   \<and> (debouncedCallback ia ta na st0 = (Issued tokA ta', st1)
        \<and> debouncedCallback ib tb nb (rtRun st1 evs) = (Issued tokB tb', st2) \<longrightarrow>
        tokA < tokB \<and> inflight st2 = tokB
        \<and> responseHandler tokA ta' ra n1 (rtRun st2 evs') = rtRun st2 evs'
        \<and> (\<not> p_cancelled pl \<longrightarrow>
             responseHandler tokB tb' (Result (Some pl)) n2 st2
             = st2\<lparr>lastText := tb', lastRanges := p_ranges pl, lastProofreadAt := n2,
                   rendered := render tb' (p_ranges pl)\<rparr>)
        \<and> responseHandler tokB tb' rb n2 (responseHandler tokA ta' ra n1 st2)
          = responseHandler tokB tb' rb n2 st2
        \<and> responseHandler tokA ta' ra n1 (responseHandler tokB tb' rb n2 st2)
          = responseHandler tokB tb' rb n2 st2)
   \<and> inflight (cleanup st) = inflight st + 1
   \<and> (token \<le> inflight st \<longrightarrow>
        responseHandler token t res now (rtRun (cleanup st) evs) = rtRun (cleanup st) evs)"
proof (intro conjI impI)
  assume "token \<noteq> inflight st"
  then have s: "responseHandler token t res now st = st" by (rule stale_discarded)
  then show "responseHandler token t res now st = st" .
  show "rendered (responseHandler token t res now st) = rendered st" by (simp add: s)
  show "lastText (responseHandler token t res now st) = lastText st" by (simp add: s)
  show "lastRanges (responseHandler token t res now st) = lastRanges st" by (simp add: s)
next
  assume a: "debouncedCallback ia ta na st0 = (Issued tokA ta', st1)
        \<and> debouncedCallback ib tb nb (rtRun st1 evs) = (Issued tokB tb', st2)"
  from a issued_token [of ia ta na st0 tokA ta' st1]
  have A: "inflight st1 = tokA" by simp
  from a issued_token [of ib tb nb "rtRun st1 evs" tokB tb' st2]
  have B: "tokB = inflight (rtRun st1 evs) + 1" "inflight st2 = tokB" by simp_all
  have "tokA \<le> inflight (rtRun st1 evs)" using inflight_run [of st1 evs] A by simp
  then show lt: "tokA < tokB" using B by simp
  show "inflight st2 = tokB" by (rule B)
  have "tokB \<le> inflight (rtRun st2 evs')" using inflight_run [of st2 evs'] B by simp
  then have "tokA \<noteq> inflight (rtRun st2 evs')" using lt by simp
  then show "responseHandler tokA ta' ra n1 (rtRun st2 evs') = rtRun st2 evs'"
    by (rule stale_discarded)
  show "responseHandler tokB tb' (Result (Some pl)) n2 st2
             = st2\<lparr>lastText := tb', lastRanges := p_ranges pl, lastProofreadAt := n2,
                   rendered := render tb' (p_ranges pl)\<rparr>" if "\<not> p_cancelled pl"
    using B(2) that by (simp add: fresh_applied)
  have "tokA \<noteq> inflight st2" using lt B by simp
  then show "responseHandler tokB tb' rb n2 (responseHandler tokA ta' ra n1 st2)
          = responseHandler tokB tb' rb n2 st2"
    by (simp add: stale_discarded)
  have "tokA \<noteq> inflight (responseHandler tokB tb' rb n2 st2)"
    using lt B by (simp add: response_keeps_inflight)
  then show "responseHandler tokA ta' ra n1 (responseHandler tokB tb' rb n2 st2)
          = responseHandler tokB tb' rb n2 st2"
    by (rule stale_discarded)
next
  show c: "inflight (cleanup st) = inflight st + 1" by (simp add: cleanup_def)
  assume "token \<le> inflight st"
  then have "token \<noteq> inflight (rtRun (cleanup st) evs)"
    using inflight_run [of "cleanup st" evs] c by simp
  then show "responseHandler token t res now (rtRun (cleanup st) evs) = rtRun (cleanup st) evs"
    by (rule stale_discarded)
qed

lemma render_Teh: "render ''Teh'' [\<lparr>r_start = 0, r_end = 3, r_replacement = Some ''The''\<rparr>]
    = [\<lparr>seg_start = 0, seg_end = 3, seg_underline = True\<rparr>]"
  by (simp add: render_def sortAscending_def clampRange_def jsSlice_def)

lemma render_Teh_catt:
  "render ''Teh catt''
     [\<lparr>r_start = 0, r_end = 3, r_replacement = Some ''The''\<rparr>,
      \<lparr>r_start = 4, r_end = 8, r_replacement = Some ''cat''\<rparr>]
   = [\<lparr>seg_start = 0, seg_end = 3, seg_underline = True\<rparr>,
      \<lparr>seg_start = 3, seg_end = 4, seg_underline = False\<rparr>,
      \<lparr>seg_start = 4, seg_end = 8, seg_underline = True\<rparr>]"
  by (simp add: render_def sortAscending_def clampRange_def jsSlice_def)

lemma issue_after_schedule:
  "rtRun freshSession [Schedule True, TimerFires ''Teh catt'' 1000]
   = freshSession\<lparr>inflight := 1\<rparr>"
  by (simp add: rtRun_def schedule_def timerFires_def debouncedCallback_def Let_def
      MAX_REALTIME_CHARS_def freshSession_def)

text \<open>
  Claim C1 (stale-response rejection) fails on the code for the calls of \<open>proofreadNow\<close>,
  the refresh after an applied suggestion: it issues a proofread call without taking a
  token, and its response is applied without the test that the debounced callback makes.
  A refresh for the text \<open>Teh\<close> is issued; then the debounced callback issues the call with
  token 1 for the newer text \<open>Teh catt\<close>, whose response arrives and is applied; then the
  response of the refresh arrives: the last observed text and ranges and the rendered
  spans are those of the older call. After a cleanup of the session, too, the response of
  a refresh in flight still overwrites the last observed text and ranges.
\<close>

theorem refresh_overwrites_newest_payload:
  "proofreadNow ''Teh'' freshSession = Some ''Teh''
   \<and> fst (timerFires ''Teh catt'' 1000 (schedule True freshSession)) = Issued 1 ''Teh catt''
   \<and> rtRun freshSession
        [Schedule True, TimerFires ''Teh catt'' 1000,
         ResponseArrives 1 ''Teh catt''
           (Result (Some \<lparr>p_corrected = ''The cat'', p_corrections = [],
              p_ranges = [\<lparr>r_start = 0, r_end = 3, r_replacement = Some ''The''\<rparr>,
                          \<lparr>r_start = 4, r_end = 8, r_replacement = Some ''cat''\<rparr>],
              p_cancelled = False\<rparr>)) 1200]
      = freshSession
          \<lparr>inflight := 1, lastText := ''Teh catt'',
            lastRanges := [\<lparr>r_start = 0, r_end = 3, r_replacement = Some ''The''\<rparr>,
                           \<lparr>r_start = 4, r_end = 8, r_replacement = Some ''cat''\<rparr>],
            lastProofreadAt := 1200,
            rendered := [\<lparr>seg_start = 0, seg_end = 3, seg_underline = True\<rparr>,
                         \<lparr>seg_start = 3, seg_end = 4, seg_underline = False\<rparr>,
                         \<lparr>seg_start = 4, seg_end = 8, seg_underline = True\<rparr>]\<rparr>
   \<and> rtRun freshSession
        [Schedule True, TimerFires ''Teh catt'' 1000,
         ResponseArrives 1 ''Teh catt''
           (Result (Some \<lparr>p_corrected = ''The cat'', p_corrections = [],
              p_ranges = [\<lparr>r_start = 0, r_end = 3, r_replacement = Some ''The''\<rparr>,
                          \<lparr>r_start = 4, r_end = 8, r_replacement = Some ''cat''\<rparr>],
              p_cancelled = False\<rparr>)) 1200,
         RefreshArrives ''Teh''
           (Result (Some \<lparr>p_corrected = ''The'', p_corrections = [],
              p_ranges = [\<lparr>r_start = 0, r_end = 3, r_replacement = Some ''The''\<rparr>],
              p_cancelled = False\<rparr>))]
      = freshSession
          \<lparr>inflight := 1, lastText := ''Teh'',
            lastRanges := [\<lparr>r_start = 0, r_end = 3, r_replacement = Some ''The''\<rparr>],
            lastProofreadAt := 1200,
            rendered := [\<lparr>seg_start = 0, seg_end = 3, seg_underline = True\<rparr>]\<rparr>
   \<and> rtRun freshSession
        [Schedule True, TimerFires ''Teh catt'' 1000, Cleanup,
         RefreshArrives ''Teh''
           (Result (Some \<lparr>p_corrected = ''The'', p_corrections = [],
              p_ranges = [\<lparr>r_start = 0, r_end = 3, r_replacement = Some ''The''\<rparr>],
              p_cancelled = False\<rparr>))]
      = freshSession
          \<lparr>inflight := 2, overlayMounted := False, lastText := ''Teh'',
            lastRanges := [\<lparr>r_start = 0, r_end = 3, r_replacement = Some ''The''\<rparr>]\<rparr>"
proof -
  let ?evs = "[Schedule True, TimerFires ''Teh catt'' 1000]"
  have s: "rtRun freshSession (?evs @ more) = rtRun (freshSession\<lparr>inflight := 1\<rparr>) more" for more
    using issue_after_schedule by (simp only: rtRun_def foldl_append)
  have 1: "proofreadNow ''Teh'' freshSession = Some ''Teh''"
    by (simp add: proofreadNow_def freshSession_def)
  have 2: "fst (timerFires ''Teh catt'' 1000 (schedule True freshSession)) = Issued 1 ''Teh catt''"
    by (simp add: schedule_def timerFires_def debouncedCallback_def Let_def
        MAX_REALTIME_CHARS_def freshSession_def)
  have 3: "rtRun freshSession
        (?evs @ [ResponseArrives 1 ''Teh catt''
           (Result (Some \<lparr>p_corrected = ''The cat'', p_corrections = [],
              p_ranges = [\<lparr>r_start = 0, r_end = 3, r_replacement = Some ''The''\<rparr>,
                          \<lparr>r_start = 4, r_end = 8, r_replacement = Some ''cat''\<rparr>],
              p_cancelled = False\<rparr>)) 1200])
      = freshSession
          \<lparr>inflight := 1, lastText := ''Teh catt'',
            lastRanges := [\<lparr>r_start = 0, r_end = 3, r_replacement = Some ''The''\<rparr>,
                           \<lparr>r_start = 4, r_end = 8, r_replacement = Some ''cat''\<rparr>],
            lastProofreadAt := 1200,
            rendered := [\<lparr>seg_start = 0, seg_end = 3, seg_underline = True\<rparr>,
                         \<lparr>seg_start = 3, seg_end = 4, seg_underline = False\<rparr>,
                         \<lparr>seg_start = 4, seg_end = 8, seg_underline = True\<rparr>]\<rparr>"
    unfolding s
    by (simp add: rtRun_def responseHandler_def Let_def render_Teh_catt freshSession_def)
  have 4: "rtRun freshSession
        (?evs @ [ResponseArrives 1 ''Teh catt''
           (Result (Some \<lparr>p_corrected = ''The cat'', p_corrections = [],
              p_ranges = [\<lparr>r_start = 0, r_end = 3, r_replacement = Some ''The''\<rparr>,
                          \<lparr>r_start = 4, r_end = 8, r_replacement = Some ''cat''\<rparr>],
              p_cancelled = False\<rparr>)) 1200,
         RefreshArrives ''Teh''
           (Result (Some \<lparr>p_corrected = ''The'', p_corrections = [],
              p_ranges = [\<lparr>r_start = 0, r_end = 3, r_replacement = Some ''The''\<rparr>],
              p_cancelled = False\<rparr>))])
      = freshSession
          \<lparr>inflight := 1, lastText := ''Teh'',
            lastRanges := [\<lparr>r_start = 0, r_end = 3, r_replacement = Some ''The''\<rparr>],
            lastProofreadAt := 1200,
            rendered := [\<lparr>seg_start = 0, seg_end = 3, seg_underline = True\<rparr>]\<rparr>"
    unfolding s
    by (simp add: rtRun_def responseHandler_def refreshHandler_def Let_def render_Teh
        freshSession_def)
  have 5: "rtRun freshSession
        (?evs @ [Cleanup,
         RefreshArrives ''Teh''
           (Result (Some \<lparr>p_corrected = ''The'', p_corrections = [],
              p_ranges = [\<lparr>r_start = 0, r_end = 3, r_replacement = Some ''The''\<rparr>],
              p_cancelled = False\<rparr>))])
      = freshSession
          \<lparr>inflight := 2, overlayMounted := False, lastText := ''Teh'',
            lastRanges := [\<lparr>r_start = 0, r_end = 3, r_replacement = Some ''The''\<rparr>]\<rparr>"
    unfolding s
    by (simp add: rtRun_def cleanup_def refreshHandler_def Let_def freshSession_def)
  from 1 2 3 4 5 show ?thesis by simp
qed

end
